theory Spec2Isabelle
  imports Main "HOL-Library.Sublist"
begin

section \<open>The copy command (cli/copy.go)\<close>

subsection \<open>Secret stores\<close>

text \<open>
  \<open>CopyCommand\<close> works on two \<open>keyring.Keyring\<close> handles, each wrapped three times
  (\<open>vault.CredentialKeyring\<close>, \<open>vault.OIDCTokenKeyring\<close>, \<open>vault.SessionKeyring\<close>).
  The wrappers live in the \<open>vault\<close> package, whose code is not among the sources at hand;
  the store below stands for them.
\<close>

datatype namespace = Credential | OIDCToken | Session

type_synonym key = string
type_synonym payload = string

datatype store_error = KeyNotFound | BackendFailure string

text \<open>
  Modelled from the spec: the secret store capability (the \<open>vault\<close> keyring wrappers over
  \<open>keyring.Keyring\<close>). Per namespace a store maps string keys to opaque payloads and offers
  \<open>Keys\<close>, \<open>Get\<close> and \<open>Set\<close>, each of which may fail. The association list keeps the
  order in which the backend enumerates its keys. The three fault fields say which calls
  the backend answers with an error.
\<close>

record store =
  items :: "namespace \<Rightarrow> (key \<times> payload) list"
  keys_fault :: "namespace \<Rightarrow> store_error option"
  get_fault :: "namespace \<Rightarrow> key \<Rightarrow> store_error option"
  set_fault :: "namespace \<Rightarrow> key \<Rightarrow> store_error option"

fun put :: "key \<Rightarrow> payload \<Rightarrow> (key \<times> payload) list \<Rightarrow> (key \<times> payload) list" where
  "put k v [] = [(k, v)]"
| "put k v (p # ps) = (if fst p = k then (k, v) # ps else p # put k v ps)"

text \<open>Modelled from the spec: \<open>Keys() ([]string, error)\<close> of one namespace.\<close>

definition store_keys :: "store \<Rightarrow> namespace \<Rightarrow> store_error + key list" where
  "store_keys s ns =
     (case keys_fault s ns of
        Some e \<Rightarrow> Inl e
      | None \<Rightarrow> Inr (map fst (items s ns)))"

text \<open>Modelled from the spec: \<open>Get(key) (payload, error)\<close>, payload or not found.\<close>

definition store_get :: "store \<Rightarrow> namespace \<Rightarrow> key \<Rightarrow> store_error + payload" where
  "store_get s ns k =
     (case get_fault s ns k of
        Some e \<Rightarrow> Inl e
      | None \<Rightarrow>
          (case map_of (items s ns) k of
             None \<Rightarrow> Inl KeyNotFound
           | Some v \<Rightarrow> Inr v))"

text \<open>Modelled from the spec: \<open>Set(key, payload) error\<close>; a failed call stores nothing.\<close>

definition store_set :: "store \<Rightarrow> namespace \<Rightarrow> key \<Rightarrow> payload \<Rightarrow> store_error + store" where
  "store_set s ns k v =
     (case set_fault s ns k of
        Some e \<Rightarrow> Inl e
      | None \<Rightarrow> Inr (s\<lparr>items := (items s)(ns := put k v (items s ns))\<rparr>))"

subsection \<open>Handles, calls and the machine state\<close>

text \<open>
  The two keyrings are opened from backend names (\<open>ConfigureCopyCommand\<close>), so both
  handles may open the same backend. The state therefore holds every backend's store by
  name, and the command receives two names. Each call that the command makes through one
  of its two parameters is logged with the parameter it went through.
\<close>

type_synonym backend = string

datatype handle = Source | Destination

datatype operation =
    OpKeys namespace
  | OpGet namespace key
  | OpSet namespace key payload
  | OpRemove namespace key

record machine =
  backends :: "backend \<Rightarrow> store"
  calls :: "(handle \<times> operation) list"

definition Keys :: "backend \<Rightarrow> namespace \<Rightarrow> machine \<Rightarrow> (store_error + key list) \<times> machine" where
  "Keys src ns m =
     (store_keys (backends m src) ns, m\<lparr>calls := calls m @ [(Source, OpKeys ns)]\<rparr>)"

definition Get :: "backend \<Rightarrow> namespace \<Rightarrow> key \<Rightarrow> machine \<Rightarrow> (store_error + payload) \<times> machine" where
  "Get src ns k m =
     (store_get (backends m src) ns k, m\<lparr>calls := calls m @ [(Source, OpGet ns k)]\<rparr>)"

definition Set_item :: "backend \<Rightarrow> namespace \<Rightarrow> key \<Rightarrow> payload \<Rightarrow> machine \<Rightarrow> store_error option \<times> machine" where
  "Set_item dst ns k v m =
     (case store_set (backends m dst) ns k v of
        Inl e \<Rightarrow> (Some e, m\<lparr>calls := calls m @ [(Destination, OpSet ns k v)]\<rparr>)
      | Inr s' \<Rightarrow>
          (None, m\<lparr>backends := (backends m)(dst := s'),
                   calls := calls m @ [(Destination, OpSet ns k v)]\<rparr>))"

subsection \<open>CopyCommand\<close>

text \<open>
  The Go function returns the store's error value as it is. The constructor of
  \<open>copy_error\<close> records which \<open>return err\<close> was taken: the one after a \<open>Keys\<close> call, after
  a \<open>Get\<close> call or after a \<open>Set\<close> call.
\<close>

datatype copy_error =
    EnumerationFailed namespace store_error
  | ReadFailed namespace key store_error
  | WriteFailed namespace key store_error

text \<open>
  One \<open>for _, name := range names\<close> loop. The source has three of them, alike but for the
  wrapper type, that is the namespace.
\<close>

fun copy_each :: "backend \<Rightarrow> backend \<Rightarrow> namespace \<Rightarrow> key list \<Rightarrow> machine \<Rightarrow> copy_error option \<times> machine" where
  "copy_each src dst ns [] m = (None, m)"
| "copy_each src dst ns (k # ks) m =
     (case Get src ns k m of
        (Inl e, m1) \<Rightarrow> (Some (ReadFailed ns k e), m1)
      | (Inr v, m1) \<Rightarrow>
          (case Set_item dst ns k v m1 of
             (Some e, m2) \<Rightarrow> (Some (WriteFailed ns k e), m2)
           | (None, m2) \<Rightarrow> copy_each src dst ns ks m2))"

text \<open>
  The result is \<open>Inl\<close> of the error returned, or \<open>Inr\<close> of the three numbers of the closing
  \<open>fmt.Printf("Copied %d credentials, %d OIDC tokens, and %d sessions.")\<close> when the function
  returns \<open>nil\<close>. The function returns nothing else; on an error no numbers are printed.
  The \<open>input\<close> parameter is not used by the function body and the \<open>log.Printf\<close> lines are
  left out.
\<close>

definition CopyCommand :: "backend \<Rightarrow> backend \<Rightarrow> machine \<Rightarrow> (copy_error + nat \<times> nat \<times> nat) \<times> machine" where
  "CopyCommand src dst m =
     (case Keys src Credential m of
        (Inl e, m1) \<Rightarrow> (Inl (EnumerationFailed Credential e), m1)
      | (Inr srcCredentialNames, m1) \<Rightarrow>
     (case Keys src OIDCToken m1 of
        (Inl e, m2) \<Rightarrow> (Inl (EnumerationFailed OIDCToken e), m2)
      | (Inr srcOidcTokenNames, m2) \<Rightarrow>
     (case Keys src Session m2 of
        (Inl e, m3) \<Rightarrow> (Inl (EnumerationFailed Session e), m3)
      | (Inr srcSessionNames, m3) \<Rightarrow>
     (case copy_each src dst Credential srcCredentialNames m3 of
        (Some e, m4) \<Rightarrow> (Inl e, m4)
      | (None, m4) \<Rightarrow>
     (case copy_each src dst OIDCToken srcOidcTokenNames m4 of
        (Some e, m5) \<Rightarrow> (Inl e, m5)
      | (None, m5) \<Rightarrow>
     (case copy_each src dst Session srcSessionNames m5 of
        (Some e, m6) \<Rightarrow> (Inl e, m6)
      | (None, m6) \<Rightarrow>
          (Inr (length srcCredentialNames, length srcOidcTokenNames, length srcSessionNames),
           m6)))))))"

subsection \<open>Vocabulary for statements about a run\<close>

text \<open>The calls made between machine state \<open>m\<close> and the later state \<open>m'\<close>.\<close>

definition issued :: "machine \<Rightarrow> machine \<Rightarrow> (handle \<times> operation) list" where
  "issued m m' = drop (length (calls m)) (calls m')"

text \<open>Enumeration and reads leave a store as it is; \<open>Set\<close> and \<open>Remove\<close> do not.\<close>

fun is_read :: "operation \<Rightarrow> bool" where
  "is_read (OpKeys ns) = True"
| "is_read (OpGet ns k) = True"
| "is_read (OpSet ns k v) = False"
| "is_read (OpRemove ns k) = False"

text \<open>A transfer is any call that reads or writes an item, as opposed to listing keys.\<close>

fun is_transfer :: "operation \<Rightarrow> bool" where
  "is_transfer (OpKeys ns) = False"
| "is_transfer (OpGet ns k) = True"
| "is_transfer (OpSet ns k v) = True"
| "is_transfer (OpRemove ns k) = True"

definition keys_call :: "namespace \<Rightarrow> handle \<times> operation" where
  "keys_call ns = (Source, OpKeys ns)"

definition benign :: "handle \<times> operation \<Rightarrow> bool" where
  "benign c = (is_transfer (snd c) \<and> (fst c = Source \<longrightarrow> is_read (snd c)))"

text \<open>What the run printed as its count summary, if it printed one.\<close>

definition reported_counts :: "copy_error + nat \<times> nat \<times> nat \<Rightarrow> (nat \<times> nat \<times> nat) option" where
  "reported_counts r = (case r of Inl e \<Rightarrow> None | Inr n \<Rightarrow> Some n)"

subsection \<open>Concrete stores\<close>

definition empty_store :: store where
  "empty_store =
     \<lparr>items = (\<lambda>ns. []), keys_fault = (\<lambda>ns. None), get_fault = (\<lambda>ns k. None),
      set_fault = (\<lambda>ns k. None)\<rparr>"

definition two_credentials :: machine where
  "two_credentials =
     \<lparr>backends = (\<lambda>b. empty_store)
        (''file'' := empty_store\<lparr>items := (\<lambda>ns. [])(Credential := [(''a'', ''x''), (''b'', ''y'')])\<rparr>),
      calls = []\<rparr>"

definition oidc_unlistable :: machine where
  "oidc_unlistable =
     \<lparr>backends = (\<lambda>b. empty_store)
        (''file'' := empty_store
           \<lparr>items := (\<lambda>ns. [])(Credential := [(''a'', ''x'')]),
            keys_fault := (\<lambda>ns. None)(OIDCToken := Some (BackendFailure ''listing''))\<rparr>),
      calls = []\<rparr>"

definition second_unreadable :: machine where
  "second_unreadable =
     \<lparr>backends = (\<lambda>b. empty_store)
        (''file'' := empty_store
           \<lparr>items := (\<lambda>ns. [])(Credential := [(''a'', ''x''), (''b'', ''y''), (''c'', ''z'')]),
            get_fault := (\<lambda>ns k. if ns = Credential \<and> k = ''b'' then Some (BackendFailure ''read'') else None)\<rparr>),
      calls = []\<rparr>"

section \<open>The access control validator (validateAccessControls)\<close>

subsection \<open>Regular expressions as Go's regexp package runs them\<close>

text \<open>
  Strings are byte strings. The patterns of \<open>validateAccessControls\<close> use literal text,
  the class \<open>\s\<close>, alternation, sequence, the greedy star and the anchors \<open>^\<close> and \<open>$\<close>;
  groups only delimit, since no submatch is read.
\<close>

datatype rexp =
    Lit string
  | Space
  | Alt rexp rexp
  | Seq rexp rexp
  | Star rexp
  | Bol
  | Eol

text \<open>The class \<open>\s\<close> of RE2 syntax is \<open>[\t\n\f\r ]\<close>.\<close>

definition is_space :: "char \<Rightarrow> bool" where
  "is_space c = (c \<in> set [CHR 0x09, CHR 0x0A, CHR 0x0C, CHR 0x0D, CHR 0x20])"

text \<open>
  \<open>bt n r s\<close> lists what is left of \<open>s\<close> after \<open>r\<close> has matched a prefix of it, one entry
  per way of matching, the preferred way first: the left branch of an alternation before
  the right one, one more round of a star before stopping (leftmost-first matching).
  \<open>n\<close> is the length of the whole input, so that \<open>length s = n\<close> holds at its beginning.
  A round of a star that consumes nothing is not followed.
\<close>

fun bt :: "nat \<Rightarrow> rexp \<Rightarrow> string \<Rightarrow> string list" where
  "bt n (Lit w) s = (if prefix w s then [drop (length w) s] else [])"
| "bt n Space s = (case s of [] \<Rightarrow> [] | c # cs \<Rightarrow> if is_space c then [cs] else [])"
| "bt n (Alt a b) s = bt n a s @ bt n b s"
| "bt n (Seq a b) s = concat (map (bt n b) (bt n a s))"
| "bt n (Star a) s =
     concat (map (\<lambda>t. if length t < length s then bt n (Star a) t else []) (bt n a s)) @ [s]"
| "bt n Bol s = (if length s = n then [s] else [])"
| "bt n Eol s = (if s = [] then [s] else [])"

declare bt.simps(5) [simp del]

lemma bt_Star_iff:
  "u \<in> set (bt n (Star a) s) \<longleftrightarrow>
     u = s \<or> (\<exists>t\<in>set (bt n a s). length t < length s \<and> u \<in> set (bt n (Star a) t))"
  by (subst bt.simps(5)) (auto split: if_splits)

text \<open>
  The leftmost match at or after byte offset \<open>i\<close>, as the pair of its start and end
  offsets: the first offset at which the expression matches, and there the preferred match.
\<close>

function leftmost :: "rexp \<Rightarrow> string \<Rightarrow> nat \<Rightarrow> (nat \<times> nat) option" where
  "leftmost r s i =
     (if length s < i then None
      else (case bt (length s) r (drop i s) of
              [] \<Rightarrow> leftmost r s (Suc i)
            | rest # others \<Rightarrow> Some (i, length s - length rest)))"
  by pat_completeness auto
termination
  by (relation "measure (\<lambda>(r, s, i). Suc (length s) - i)") auto

declare leftmost.simps [simp del]

text \<open>\<open>regexp.MatchString\<close>: is there a match anywhere in \<open>s\<close>.\<close>

definition MatchString :: "rexp \<Rightarrow> string \<Rightarrow> bool" where
  "MatchString r s = (leftmost r s 0 \<noteq> None)"


text \<open>What \<open>bt\<close> leaves is a suffix of what it was given, so a match ends after its start.\<close>

lemma bt_suffix: "u \<in> set (bt n r s) \<Longrightarrow> suffix u s"
proof (induction n r s arbitrary: u rule: bt.induct)
  case (1 n w s)
  then show ?case by (auto simp: suffix_drop split: if_splits)
next
  case (2 n s)
  then show ?case by (auto simp: suffix_Cons split: list.splits if_splits)
next
  case (3 n a b s)
  then show ?case by auto
next
  case (4 n a b s)
  then show ?case by (auto intro: suffix_order.trans)
next
  case (5 n a s)
  from "5.prems" consider "u = s"
    | t where "t \<in> set (bt n a s)" "length t < length s" "u \<in> set (bt n (Star a) t)"
    using bt_Star_iff[of u n a s] by blast
  then show ?case
  proof cases
    case 1
    then show ?thesis by simp
  next
    case 2
    with "5.IH" show ?thesis by (blast intro: suffix_order.trans)
  qed
next
  case (6 n s)
  then show ?case by (auto split: if_splits)
next
  case (7 n s)
  then show ?case by (auto split: if_splits)
qed

lemma leftmost_bounds:
  "leftmost r s i = Some (b, e) \<Longrightarrow> i \<le> b \<and> b \<le> e \<and> e \<le> length s"
proof (induction r s i rule: leftmost.induct)
  case (1 r s i)
  note unfold = leftmost.simps[of r s i]
  show ?case
  proof (cases "length s < i")
    case True
    with "1.prems" unfold show ?thesis by simp
  next
    case False
    show ?thesis
    proof (cases "bt (length s) r (drop i s)")
      case Nil
      with False "1.prems" unfold have "leftmost r s (Suc i) = Some (b, e)" by simp
      with "1.IH"[OF False Nil] show ?thesis by simp
    next
      case (Cons rest others)
      then have "suffix rest (drop i s)" by (intro bt_suffix[of _ "length s" r]) simp
      then have "length rest \<le> length s - i" using suffix_length_le by fastforce
      moreover from False Cons "1.prems" unfold have "b = i" "e = length s - length rest"
        by simp_all
      ultimately show ?thesis using False by simp
    qed
  qed
qed

text \<open>
  The loop of \<open>Regexp.allMatches\<close> behind \<open>FindAllStringIndex(s, -1)\<close>: successive leftmost
  matches from offset \<open>pos\<close>. An empty match right after the previous match is dropped, and
  the search then moves on by one byte (Go moves on by one rune; the expressions used here
  never match the empty string). With a negative limit the number of matches is unbounded.
\<close>

function allMatches :: "rexp \<Rightarrow> string \<Rightarrow> nat \<Rightarrow> int \<Rightarrow> (nat \<times> nat) list" where
  "allMatches r s pos prevMatchEnd =
     (if length s < pos then []
      else (case leftmost r s pos of
              None \<Rightarrow> []
            | Some (b, e) \<Rightarrow>
                if e = pos
                then (if int b = prevMatchEnd then [] else [(b, e)]) @
                     allMatches r s (pos + 1) (int e)
                else (b, e) # allMatches r s e (int e)))"
  by pat_completeness auto
termination
proof (relation "measure (\<lambda>(r, s, pos, p). Suc (length s) - pos)")
  fix r :: rexp and s :: string and pos :: nat and prevMatchEnd :: int
    and x :: "nat \<times> nat" and b e :: nat
  assume "\<not> length s < pos" "leftmost r s pos = Some x" "(b, e) = x" "e \<noteq> pos"
  then have "pos \<le> b \<and> b \<le> e \<and> e \<le> length s"
    using leftmost_bounds[of r s pos b e] by simp
  with \<open>e \<noteq> pos\<close>
  show "((r, s, e, int e), (r, s, pos, prevMatchEnd)) \<in>
          measure (\<lambda>(r, s, pos, p). Suc (length s) - pos)"
    by (simp, arith)
qed auto

declare allMatches.simps [simp del]

text \<open>
  The loop of \<open>Regexp.Split(s, -1)\<close> over the matches, with its closing
  \<open>if end != len(s)\<close>: \<open>beg\<close> is the end of the previous match, \<open>end\<close> the start of the
  current one, and \<open>s[beg:end]\<close> is the piece between them. Before the loop, \<open>Split\<close>
  answers the empty input with the one empty piece (the text of the expression being non-empty).
\<close>

fun split_pieces :: "string \<Rightarrow> (nat \<times> nat) list \<Rightarrow> nat \<Rightarrow> nat \<Rightarrow> string list \<Rightarrow> string list" where
  "split_pieces s [] beg end strings =
     (if end \<noteq> length s then strings @ [drop beg s] else strings)"
| "split_pieces s ((b, e) # matches) beg end strings =
     split_pieces s matches e b
       (if e \<noteq> 0 then strings @ [take (b - beg) (drop beg s)] else strings)"

definition Split :: "rexp \<Rightarrow> string \<Rightarrow> string list" where
  "Split r s = (if s = [] then [''''] else split_pieces s (allMatches r s 0 (- 1)) 0 0 [])"

subsection \<open>strings.TrimSpace\<close>

text \<open>
  White space as defined by Unicode (\<open>unicode.IsSpace\<close>), each code point in its UTF-8
  encoding: U+0009 to U+000D, U+0020, U+0085, U+00A0, U+1680, U+2000 to U+200A, U+2028,
  U+2029, U+202F, U+205F and U+3000.
\<close>

definition unicode_spaces :: "string list" where
  "unicode_spaces =
     [ [CHR 0x09], [CHR 0x0A], [CHR 0x0B], [CHR 0x0C], [CHR 0x0D], [CHR 0x20],
      [CHR 0xC2, CHR 0x85], [CHR 0xC2, CHR 0xA0], [CHR 0xE1, CHR 0x9A, CHR 0x80],
      [CHR 0xE2, CHR 0x80, CHR 0x80], [CHR 0xE2, CHR 0x80, CHR 0x81],
      [CHR 0xE2, CHR 0x80, CHR 0x82], [CHR 0xE2, CHR 0x80, CHR 0x83],
      [CHR 0xE2, CHR 0x80, CHR 0x84], [CHR 0xE2, CHR 0x80, CHR 0x85],
      [CHR 0xE2, CHR 0x80, CHR 0x86], [CHR 0xE2, CHR 0x80, CHR 0x87],
      [CHR 0xE2, CHR 0x80, CHR 0x88], [CHR 0xE2, CHR 0x80, CHR 0x89],
      [CHR 0xE2, CHR 0x80, CHR 0x8A], [CHR 0xE2, CHR 0x80, CHR 0xA8],
      [CHR 0xE2, CHR 0x80, CHR 0xA9], [CHR 0xE2, CHR 0x80, CHR 0xAF],
      [CHR 0xE2, CHR 0x81, CHR 0x9F], [CHR 0xE3, CHR 0x80, CHR 0x80]]"

lemma unicode_spaces_nonempty: "w \<in> set unicode_spaces \<Longrightarrow> 0 < length w"
  by (auto simp: unicode_spaces_def)

function trim_left :: "string \<Rightarrow> string" where
  "trim_left s =
     (case find (\<lambda>w. prefix w s) unicode_spaces of
        None \<Rightarrow> s
      | Some w \<Rightarrow> trim_left (drop (length w) s))"
  by pat_completeness auto
termination
proof (relation "measure length")
  fix s w
  assume "find (\<lambda>w. prefix w s) unicode_spaces = Some w"
  then have "w \<in> set unicode_spaces" "prefix w s"
    by (auto simp: find_Some_iff)
  then have "0 < length w" "length w \<le> length s"
    using unicode_spaces_nonempty[of w] prefix_length_le[of w s] by simp_all
  then show "(drop (length w) s, s) \<in> measure length" by (simp, arith)
qed simp

declare trim_left.simps [simp del]

function trim_right :: "string \<Rightarrow> string" where
  "trim_right s =
     (case find (\<lambda>w. suffix w s) unicode_spaces of
        None \<Rightarrow> s
      | Some w \<Rightarrow> trim_right (take (length s - length w) s))"
  by pat_completeness auto
termination
proof (relation "measure length")
  fix s w
  assume "find (\<lambda>w. suffix w s) unicode_spaces = Some w"
  then have "w \<in> set unicode_spaces" "suffix w s"
    by (auto simp: find_Some_iff)
  then have "0 < length w" "length w \<le> length s"
    using unicode_spaces_nonempty[of w] suffix_length_le[of w s] by simp_all
  then show "(take (length s - length w) s, s) \<in> measure length" by (simp, arith)
qed simp

declare trim_right.simps [simp del]

definition TrimSpace :: "string \<Rightarrow> string" where
  "TrimSpace s = trim_right (trim_left s)"

subsection \<open>validateAccessControls\<close>

text \<open>The fields of \<open>AwsVault\<close> that are plain values; the function reads \<open>accessControl\<close>.\<close>

record AwsVault =
  Debug :: bool
  KeyringBackend :: string
  promptDriver :: string
  accessControl :: string

definition accessControlOptions :: "string list" where
  "accessControlOptions =
     [''UserPresence'', ''BiometryCurrentSet'', ''BiometryAnySet'', ''DevicePasscode'',
      ''Watch'', ''ApplicationPassword'']"

text \<open>
  \<open>strings.Join(validTerms, "|")\<close> between the parentheses of the pattern: the terms as
  alternatives, in the order of the list.
\<close>

fun alternatives :: "string list \<Rightarrow> rexp" where
  "alternatives [] = Lit []"
| "alternatives [t] = Lit t"
| "alternatives (t # ts) = Alt (Lit t) (alternatives ts)"

text \<open>The compiled \<open>^(%s)(?:\s*(And|Or)\s*(%s))*$\<close>.\<close>

definition structure_regex :: "rexp \<Rightarrow> rexp" where
  "structure_regex validTermsPattern =
     Seq Bol
       (Seq validTermsPattern
          (Seq (Star (Seq (Star Space)
                       (Seq (Alt (Lit ''And'') (Lit ''Or''))
                          (Seq (Star Space) validTermsPattern))))
             Eol))"

text \<open>The compiled \<open>\s*(And|Or)\s*\<close>.\<close>

definition splitRegex :: rexp where
  "splitRegex = Seq (Star Space) (Seq (Alt (Lit ''And'') (Lit ''Or'')) (Star Space))"

text \<open>
  The two \<open>fmt.Errorf\<close> results: \<open>invalid access control setting: '%s'\<close> with the whole
  setting, and \<open>repeated access control term: '%s'\<close> with the term.
\<close>

datatype validation_error = InvalidSyntax string | DuplicateTerm string

text \<open>The loop over \<open>terms\<close>; \<open>seen\<close> is the \<open>map[string]bool\<close>, absent keys reading false.\<close>

fun repeated :: "string list \<Rightarrow> (string \<Rightarrow> bool) \<Rightarrow> string option" where
  "repeated [] seen = None"
| "repeated (term # terms) seen =
     (let normalizedTerm = TrimSpace term in
      if seen normalizedTerm then Some normalizedTerm
      else repeated terms (seen(normalizedTerm := True)))"

definition validateAccessControls :: "AwsVault \<Rightarrow> validation_error + string list" where
  "validateAccessControls a =
     (let validTerms = accessControlOptions;
          validTermsPattern = alternatives validTerms;
          regex = structure_regex validTermsPattern
      in if \<not> MatchString regex (accessControl a)
         then Inl (InvalidSyntax (accessControl a))
         else (let terms = Split splitRegex (accessControl a) in
               case repeated terms (\<lambda>t. False) of
                 Some t \<Rightarrow> Inl (DuplicateTerm t)
               | None \<Rightarrow> Inr terms))"

subsection \<open>The grammar of access control settings\<close>

text \<open>
  A setting built from a first term and a list of (conjunction, term) pairs, written one
  after the other with nothing in between: \<open>TERM ((And|Or) TERM)*\<close>.
\<close>

definition join_terms :: "string \<Rightarrow> (string \<times> string) list \<Rightarrow> string" where
  "join_terms t rest = t @ concat (map (\<lambda>(c, u). c @ u) rest)"

definition well_formed :: "string \<Rightarrow> (string \<times> string) list \<Rightarrow> bool" where
  "well_formed t rest =
     (t \<in> set accessControlOptions \<and>
      list_all (\<lambda>(c, u). c \<in> {''And'', ''Or''} \<and> u \<in> set accessControlOptions) rest)"

definition expressions :: "string set" where
  "expressions = {join_terms t rest | t rest. well_formed t rest}"

text \<open>
  The same with optional white space (of the class \<open>\s\<close>) on either side of each
  conjunction: \<open>TERM (\s* (And|Or) \s* TERM)*\<close>. A link is the white space before the
  conjunction, the conjunction, the white space after it, and the term.
\<close>

type_synonym link = "string \<times> string \<times> string \<times> string"

definition link_text :: "link \<Rightarrow> string" where
  "link_text l = (case l of (w1, c, w2, u) \<Rightarrow> w1 @ c @ w2 @ u)"

definition link_term :: "link \<Rightarrow> string" where
  "link_term l = (case l of (w1, c, w2, u) \<Rightarrow> u)"

definition link_ok :: "link \<Rightarrow> bool" where
  "link_ok l =
     (case l of (w1, c, w2, u) \<Rightarrow>
        list_all is_space w1 \<and> c \<in> {''And'', ''Or''} \<and> list_all is_space w2 \<and>
        u \<in> set accessControlOptions)"

definition spaced_join :: "string \<Rightarrow> link list \<Rightarrow> string" where
  "spaced_join t links = t @ concat (map link_text links)"

definition spaced_well_formed :: "string \<Rightarrow> link list \<Rightarrow> bool" where
  "spaced_well_formed t links = (t \<in> set accessControlOptions \<and> list_all link_ok links)"

definition spaced_expressions :: "string set" where
  "spaced_expressions = {spaced_join t links | t links. spaced_well_formed t links}"

text \<open>Conjunction and term pairs as links without white space.\<close>

definition tight :: "(string \<times> string) list \<Rightarrow> link list" where
  "tight rest = map (\<lambda>(c, u). ([], c, [], u)) rest"

text \<open>
  Stripping the conjunctions from a setting: the pieces of the string between the
  occurrences of \<open>And\<close> and \<open>Or\<close>, read from left to right.
\<close>

function strip_conjunctions :: "string \<Rightarrow> string list" where
  "strip_conjunctions s =
     (if s = [] then ['''']
      else if prefix ''And'' s then [] # strip_conjunctions (drop 3 s)
      else if prefix ''Or'' s then [] # strip_conjunctions (drop 2 s)
      else (case strip_conjunctions (tl s) of
              [] \<Rightarrow> [ [hd s] ]
            | p # ps \<Rightarrow> (hd s # p) # ps))"
  by pat_completeness auto
termination
  by (relation "measure length") auto

declare strip_conjunctions.simps [simp del]

text \<open>An \<open>AwsVault\<close> value with a given access control setting.\<close>

definition vault_with :: "string \<Rightarrow> AwsVault" where
  "vault_with s =
     \<lparr>Debug = False, KeyringBackend = ''dp-keychain'', promptDriver = [], accessControl = s\<rparr>"

subsection \<open>The language of an expression without anchors\<close>

inductive_set star :: "string set \<Rightarrow> string set" for L :: "string set" where
  star_empty: "[] \<in> star L"
| star_round: "p \<in> L \<Longrightarrow> p \<noteq> [] \<Longrightarrow> q \<in> star L \<Longrightarrow> p @ q \<in> star L"

fun lang :: "rexp \<Rightarrow> string set" where
  "lang (Lit w) = {w}"
| "lang Space = {[c] | c. is_space c}"
| "lang (Alt a b) = lang a \<union> lang b"
| "lang (Seq a b) = {p @ q | p q. p \<in> lang a \<and> q \<in> lang b}"
| "lang (Star a) = star (lang a)"
| "lang Bol = {}"
| "lang Eol = {}"

fun anchor_free :: "rexp \<Rightarrow> bool" where
  "anchor_free (Lit w) = True"
| "anchor_free Space = True"
| "anchor_free (Alt a b) = (anchor_free a \<and> anchor_free b)"
| "anchor_free (Seq a b) = (anchor_free a \<and> anchor_free b)"
| "anchor_free (Star a) = anchor_free a"
| "anchor_free Bol = False"
| "anchor_free Eol = False"

text \<open>
  Where the conjunctions of a joined setting lie: the start and end offsets of each link's
  separator when the first term starts so that it ends at offset \<open>off\<close>.
\<close>

fun separators :: "nat \<Rightarrow> link list \<Rightarrow> (nat \<times> nat) list" where
  "separators off [] = []"
| "separators off ((w1, c, w2, u) # links) =
     (off, off + length (w1 @ c @ w2)) #
     separators (off + length (w1 @ c @ w2) + length u) links"

section \<open>Properties of the copy command\<close>

subsection \<open>The source store and the call log\<close>

lemma put_same: "map_of ps k = Some v \<Longrightarrow> put k v ps = ps"
  by (induction ps) (auto split: if_splits)

lemma store_set_same:
  "store_get s ns k = Inr v \<Longrightarrow> store_set s ns k v = Inr s' \<Longrightarrow> s' = s"
  by (auto simp: store_get_def store_set_def put_same split: option.splits)

lemma Get_backends [simp]: "backends (snd (Get src ns k m)) = backends m"
  by (simp add: Get_def)

lemma Keys_backends [simp]: "backends (snd (Keys src ns m)) = backends m"
  by (simp add: Keys_def)

lemma copy_step_source:
  "Get src ns k m = (Inr v, m1) \<Longrightarrow> backends (snd (Set_item dst ns k v m1)) src = backends m src"
  by (cases "src = dst")
     (auto simp: Get_def Set_item_def split: sum.splits dest: store_set_same)

lemma copy_each_source:
  "backends (snd (copy_each src dst ns ks m)) src = backends m src"
proof (induction ks arbitrary: m)
  case Nil
  show ?case by simp
next
  case (Cons k ks)
  show ?case
  proof (cases "Get src ns k m")
    case (Pair r m1)
    show ?thesis
    proof (cases r)
      case (Inl e)
      with Pair show ?thesis using Get_backends[of src ns k m] by simp
    next
      case (Inr v)
      with Pair have g: "Get src ns k m = (Inr v, m1)" by simp
      show ?thesis
      proof (cases "Set_item dst ns k v m1")
        case (Pair w m2)
        from copy_step_source[OF g, of dst] Pair have b: "backends m2 src = backends m src" by simp
        show ?thesis
        proof (cases w)
          case None
          with g Pair b Cons.IH[of m2] show ?thesis by simp
        next
          case (Some e)
          with g Pair b show ?thesis by simp
        qed
      qed
    qed
  qed
qed


lemma copy_each_calls:
  "\<exists>ts. calls (snd (copy_each src dst ns ks m)) = calls m @ ts \<and>
        (\<forall>c\<in>set ts. is_transfer (snd c) \<and> (fst c = Source \<longrightarrow> is_read (snd c)))"
proof (induction ks arbitrary: m)
  case Nil
  show ?case by simp
next
  case (Cons k ks)
  obtain r m1 where g: "Get src ns k m = (r, m1)" by (cases "Get src ns k m")
  then have c1: "calls m1 = calls m @ [(Source, OpGet ns k)]" by (auto simp: Get_def)
  show ?case
  proof (cases r)
    case (Inl e)
    with g c1 show ?thesis by simp
  next
    case (Inr v)
    obtain w m2 where s: "Set_item dst ns k v m1 = (w, m2)" by (cases "Set_item dst ns k v m1")
    then have c2: "calls m2 = calls m1 @ [(Destination, OpSet ns k v)]"
      by (auto simp: Set_item_def split: sum.splits)
    show ?thesis
    proof (cases w)
      case (Some e)
      with g Inr s c1 c2 show ?thesis by simp
    next
      case None
      from Cons.IH[of m2] obtain ts where
        t: "calls (snd (copy_each src dst ns ks m2)) = calls m2 @ ts"
           "\<forall>c\<in>set ts. is_transfer (snd c) \<and> (fst c = Source \<longrightarrow> is_read (snd c))"
        by blast
      have "calls (snd (copy_each src dst ns (k # ks) m)) =
            calls m @ ((Source, OpGet ns k) # (Destination, OpSet ns k v) # ts)"
        using g Inr s None t(1) c1 c2 by simp
      moreover have "\<forall>c\<in>set ((Source, OpGet ns k) # (Destination, OpSet ns k v) # ts).
            is_transfer (snd c) \<and> (fst c = Source \<longrightarrow> is_read (snd c))"
        using t(2) by simp
      ultimately show ?thesis by blast
    qed
  qed
qed

lemma CopyCommand_cases:
  obtains
    (credential_listing) e where
      "store_keys (backends m src) Credential = Inl e"
      "CopyCommand src dst m =
         (Inl (EnumerationFailed Credential e), m\<lparr>calls := calls m @ [keys_call Credential]\<rparr>)"
  | (oidc_listing) cs e where
      "store_keys (backends m src) Credential = Inr cs"
      "store_keys (backends m src) OIDCToken = Inl e"
      "CopyCommand src dst m =
         (Inl (EnumerationFailed OIDCToken e),
          m\<lparr>calls := calls m @ [keys_call Credential, keys_call OIDCToken]\<rparr>)"
  | (session_listing) cs os e where
      "store_keys (backends m src) Credential = Inr cs"
      "store_keys (backends m src) OIDCToken = Inr os"
      "store_keys (backends m src) Session = Inl e"
      "CopyCommand src dst m =
         (Inl (EnumerationFailed Session e),
          m\<lparr>calls := calls m @ [keys_call Credential, keys_call OIDCToken, keys_call Session]\<rparr>)"
  | (transfer) cs os ss where
      "store_keys (backends m src) Credential = Inr cs"
      "store_keys (backends m src) OIDCToken = Inr os"
      "store_keys (backends m src) Session = Inr ss"
      "CopyCommand src dst m =
         (let m3 = m\<lparr>calls := calls m @ [keys_call Credential, keys_call OIDCToken, keys_call Session]\<rparr> in
          case copy_each src dst Credential cs m3 of
            (Some e, m4) \<Rightarrow> (Inl e, m4)
          | (None, m4) \<Rightarrow>
          (case copy_each src dst OIDCToken os m4 of
            (Some e, m5) \<Rightarrow> (Inl e, m5)
          | (None, m5) \<Rightarrow>
          (case copy_each src dst Session ss m5 of
            (Some e, m6) \<Rightarrow> (Inl e, m6)
          | (None, m6) \<Rightarrow> (Inr (length cs, length os, length ss), m6))))"
proof (cases "store_keys (backends m src) Credential")
  case (Inl e)
  then show thesis
    by (intro credential_listing[of e]) (simp_all add: CopyCommand_def Keys_def keys_call_def)
next
  case c: (Inr cs)
  show thesis
  proof (cases "store_keys (backends m src) OIDCToken")
    case (Inl e)
    with c show thesis
      by (intro oidc_listing[of cs e]) (simp_all add: CopyCommand_def Keys_def keys_call_def)
  next
    case o: (Inr os)
    show thesis
    proof (cases "store_keys (backends m src) Session")
      case (Inl e)
      with c o show thesis
        by (intro session_listing[of cs os e]) (simp_all add: CopyCommand_def Keys_def keys_call_def)
    next
      case (Inr ss)
      with c o show thesis
        by (intro transfer[of cs os ss]) (simp_all add: CopyCommand_def Keys_def keys_call_def)
    qed
  qed
qed

lemma copy_each_run:
  assumes "copy_each src dst ns ks m = (r, m')"
  obtains ts where "calls m' = calls m @ ts" "\<forall>c\<in>set ts. benign c"
    "backends m' src = backends m src"
  using copy_each_calls[of src dst ns ks m] copy_each_source[of src dst ns ks m] assms
  unfolding benign_def by auto

lemma transfer_run:
  assumes "(case copy_each src dst Credential cs m3 of
            (Some e, m4) \<Rightarrow> (Inl e, m4)
          | (None, m4) \<Rightarrow>
          (case copy_each src dst OIDCToken os m4 of
            (Some e, m5) \<Rightarrow> (Inl e, m5)
          | (None, m5) \<Rightarrow>
          (case copy_each src dst Session ss m5 of
            (Some e, m6) \<Rightarrow> (Inl e, m6)
          | (None, m6) \<Rightarrow> (Inr (length cs, length os, length ss), m6)))) = (r, m')"
  obtains ts where "calls m' = calls m3 @ ts" "\<forall>c\<in>set ts. benign c"
    "backends m' src = backends m3 src"
proof -
  obtain r1 m4 where a: "copy_each src dst Credential cs m3 = (r1, m4)"
    by (cases "copy_each src dst Credential cs m3")
  from copy_each_run[OF a] obtain t1 where
    t1: "calls m4 = calls m3 @ t1" "\<forall>c\<in>set t1. benign c" "backends m4 src = backends m3 src"
    by blast
  show thesis
  proof (cases r1)
    case (Some e)
    with a assms have "m' = m4" by simp
    with t1 that show thesis by blast
  next
    case n1: None
    obtain r2 m5 where b: "copy_each src dst OIDCToken os m4 = (r2, m5)"
      by (cases "copy_each src dst OIDCToken os m4")
    from copy_each_run[OF b] obtain t2 where
      t2: "calls m5 = calls m4 @ t2" "\<forall>c\<in>set t2. benign c" "backends m5 src = backends m4 src"
      by blast
    show thesis
    proof (cases r2)
      case (Some e)
      with a n1 b assms have "m' = m5" by simp
      moreover have "calls m5 = calls m3 @ (t1 @ t2)" using t1 t2 by simp
      moreover have "\<forall>c\<in>set (t1 @ t2). benign c" using t1 t2 by auto
      ultimately show thesis using that t1(3) t2(3) by metis
    next
      case n2: None
      obtain r3 m6 where c: "copy_each src dst Session ss m5 = (r3, m6)"
        by (cases "copy_each src dst Session ss m5")
      from copy_each_run[OF c] obtain t3 where
        t3: "calls m6 = calls m5 @ t3" "\<forall>c\<in>set t3. benign c" "backends m6 src = backends m5 src"
        by blast
      have "m' = m6" using a n1 b n2 c assms by (cases r3) simp_all
      moreover have "calls m6 = calls m3 @ (t1 @ t2 @ t3)" using t1 t2 t3 by simp
      moreover have "\<forall>c\<in>set (t1 @ t2 @ t3). benign c" using t1 t2 t3 by auto
      ultimately show thesis using that t1(3) t2(3) t3(3) by metis
    qed
  qed
qed


subsection \<open>The claims about the copy command\<close>



text \<open>
  Claim C7. The source holds exactly the Credential items \<open>a \<mapsto> x\<close> and \<open>b \<mapsto> y\<close> (in
  either enumeration order) and nothing under OIDCToken or Session, the destination is
  empty and no call fails. Then the command returns no error, its summary counts are
  \<open>(2, 0, 0)\<close>, the destination holds exactly the two items under Credential, and the
  source is unchanged.
\<close>

theorem CopyCommand_two_credentials:
  assumes "src \<noteq> dst"
    and "cred = [(''a'', ''x''), (''b'', ''y'')] \<or> cred = [(''b'', ''y''), (''a'', ''x'')]"
    and "items (backends m src) = (\<lambda>ns. [])(Credential := cred)"
    and "items (backends m dst) = (\<lambda>ns. [])"
    and "keys_fault (backends m src) = (\<lambda>ns. None)"
    and "get_fault (backends m src) = (\<lambda>ns k. None)"
    and "set_fault (backends m dst) = (\<lambda>ns k. None)"
  shows "fst (CopyCommand src dst m) = Inr (2, 0, 0) \<and>
         items (backends (snd (CopyCommand src dst m)) dst) = (\<lambda>ns. [])(Credential := cred) \<and>
         backends (snd (CopyCommand src dst m)) src = backends m src"
  using assms
  by (auto simp: CopyCommand_def Keys_def Get_def Set_item_def store_keys_def store_get_def
      store_set_def fun_eq_iff)

theorem CopyCommand_two_credentials_witness:
  "fst (CopyCommand ''file'' ''keychain'' two_credentials) = Inr (2, 0, 0) \<and>
   items (backends (snd (CopyCommand ''file'' ''keychain'' two_credentials)) ''keychain'') =
     (\<lambda>ns. [])(Credential := [(''a'', ''x''), (''b'', ''y'')]) \<and>
   backends (snd (CopyCommand ''file'' ''keychain'' two_credentials)) ''file'' =
     backends two_credentials ''file''"
  using CopyCommand_two_credentials
    [of "''file''" "''keychain''" "[(''a'', ''x''), (''b'', ''y'')]" two_credentials]
  by (simp add: two_credentials_def empty_store_def)

text \<open>
  Claim C1, as the code has it. When the enumeration of the OIDCToken keys fails after the
  Credential keys were enumerated, the command returns the enumeration error at once; by
  then it has made no transfer at all, the Credential one included, so every store is as
  it was before the run.
\<close>

theorem CopyCommand_oidc_listing_fails:
  assumes "store_keys (backends m src) Credential = Inr cs"
    and "store_keys (backends m src) OIDCToken = Inl e"
  shows "fst (CopyCommand src dst m) = Inl (EnumerationFailed OIDCToken e) \<and>
         backends (snd (CopyCommand src dst m)) = backends m \<and>
         issued m (snd (CopyCommand src dst m)) =
           [(Source, OpKeys Credential), (Source, OpKeys OIDCToken)]"
  using assms by (simp add: CopyCommand_def Keys_def issued_def)

theorem CopyCommand_oidc_listing_fails_witness:
  "store_keys (backends oidc_unlistable ''file'') Credential = Inr [''a''] \<and>
   store_keys (backends oidc_unlistable ''file'') OIDCToken = Inl (BackendFailure ''listing'') \<and>
   fst (CopyCommand ''file'' ''keychain'' oidc_unlistable) =
     Inl (EnumerationFailed OIDCToken (BackendFailure ''listing'')) \<and>
   backends (snd (CopyCommand ''file'' ''keychain'' oidc_unlistable)) = backends oidc_unlistable \<and>
   issued oidc_unlistable (snd (CopyCommand ''file'' ''keychain'' oidc_unlistable)) =
     [(Source, OpKeys Credential), (Source, OpKeys OIDCToken)]"
  using CopyCommand_oidc_listing_fails
    [of oidc_unlistable "''file''" "[''a'']" "BackendFailure ''listing''" "''keychain''"]
  by (simp add: oidc_unlistable_def empty_store_def store_keys_def)

text \<open>
  Claim C1 as stated expects the Credential items in the destination. With a source that
  lists the Credential key \<open>a\<close> and fails to list the OIDCToken keys, the destination has no
  Credential item after the run.
\<close>

theorem CopyCommand_oidc_listing_counterexample:
  "store_keys (backends oidc_unlistable ''file'') Credential = Inr [''a''] \<and>
   fst (CopyCommand ''file'' ''keychain'' oidc_unlistable) =
     Inl (EnumerationFailed OIDCToken (BackendFailure ''listing'')) \<and>
   items (backends (snd (CopyCommand ''file'' ''keychain'' oidc_unlistable)) ''keychain'') Credential = []"
  by (simp add: oidc_unlistable_def empty_store_def store_keys_def CopyCommand_def Keys_def)

text \<open>
  Claim C2, as the code has it. The three namespaces are enumerated, the first of three
  Credential keys is read and written, and the read of the second fails. Then the command
  returns the read error, the destination holds exactly the first key's payload, and the
  only write made is that of the first item. The command returns the error alone: it
  hands back no counts.
\<close>

theorem CopyCommand_second_read_fails:
  assumes "src \<noteq> dst"
    and "store_keys (backends m src) Credential = Inr [k1, k2, k3]"
    and "store_keys (backends m src) OIDCToken = Inr os"
    and "store_keys (backends m src) Session = Inr ss"
    and "store_get (backends m src) Credential k1 = Inr v1"
    and "store_get (backends m src) Credential k2 = Inl e"
    and "set_fault (backends m dst) Credential k1 = None"
    and "items (backends m dst) = (\<lambda>ns. [])"
  shows "fst (CopyCommand src dst m) = Inl (ReadFailed Credential k2 e) \<and>
         items (backends (snd (CopyCommand src dst m)) dst) = (\<lambda>ns. [])(Credential := [(k1, v1)]) \<and>
         filter (\<lambda>c. fst c = Destination) (issued m (snd (CopyCommand src dst m))) =
           [(Destination, OpSet Credential k1 v1)]"
  using assms
  by (simp add: CopyCommand_def Keys_def Get_def Set_item_def store_set_def issued_def)

theorem CopyCommand_second_read_fails_witness:
  "fst (CopyCommand ''file'' ''keychain'' second_unreadable) =
     Inl (ReadFailed Credential ''b'' (BackendFailure ''read'')) \<and>
   items (backends (snd (CopyCommand ''file'' ''keychain'' second_unreadable)) ''keychain'') =
     (\<lambda>ns. [])(Credential := [(''a'', ''x'')]) \<and>
   filter (\<lambda>c. fst c = Destination)
     (issued second_unreadable (snd (CopyCommand ''file'' ''keychain'' second_unreadable))) =
     [(Destination, OpSet Credential ''a'' ''x'')]"
  using CopyCommand_second_read_fails
    [of "''file''" "''keychain''" second_unreadable "''a''" "''b''" "''c''" "[]" "[]" "''x''"
        "BackendFailure ''read''"]
  by (simp add: second_unreadable_def empty_store_def store_keys_def store_get_def)

text \<open>
  Claim C2 as stated has a result that reports one item copied. The command returns only an
  error value and prints its count summary on success only, so at this input no count is
  reported.
\<close>

theorem CopyCommand_second_read_counterexample:
  "reported_counts (fst (CopyCommand ''file'' ''keychain'' second_unreadable)) = None"
  by (simp add: second_unreadable_def empty_store_def store_keys_def store_get_def store_set_def
      CopyCommand_def Keys_def Get_def Set_item_def reported_counts_def)

text \<open>
  Claim C10. The keys of all three namespaces are enumerated before any item is read or
  written: if the run made any transfer, its first three calls were the three enumerations
  and all of them succeeded. Hence, if any of the three enumerations fails, the command
  returns an enumeration error of a namespace whose listing failed, no transfer was made
  and every store is unmodified.
\<close>

theorem CopyCommand_lists_before_transfer:
  "((\<exists>c\<in>set (issued m (snd (CopyCommand src dst m))). is_transfer (snd c)) \<longrightarrow>
      take 3 (issued m (snd (CopyCommand src dst m))) =
        [(Source, OpKeys Credential), (Source, OpKeys OIDCToken), (Source, OpKeys Session)] \<and>
      (\<forall>ns. \<exists>ks. store_keys (backends m src) ns = Inr ks)) \<and>
   ((\<exists>ns e. store_keys (backends m src) ns = Inl e) \<longrightarrow>
      (\<exists>ns e. store_keys (backends m src) ns = Inl e \<and>
              fst (CopyCommand src dst m) = Inl (EnumerationFailed ns e)) \<and>
      backends (snd (CopyCommand src dst m)) = backends m \<and>
      (\<forall>c\<in>set (issued m (snd (CopyCommand src dst m))). \<not> is_transfer (snd c)))"
proof (cases rule: CopyCommand_cases[of m src dst])
  case (credential_listing e)
  then show ?thesis by (auto simp: issued_def keys_call_def)
next
  case (oidc_listing cs e)
  then show ?thesis by (auto simp: issued_def keys_call_def)
next
  case (session_listing cs os e)
  then show ?thesis by (auto simp: issued_def keys_call_def)
next
  case (transfer cs os ss)
  define m3 where "m3 = m\<lparr>calls := calls m @ [keys_call Credential, keys_call OIDCToken, keys_call Session]\<rparr>"
  obtain r m' where rm: "CopyCommand src dst m = (r, m')" by (cases "CopyCommand src dst m")
  with transfer(4) have "(case copy_each src dst Credential cs m3 of
            (Some e, m4) \<Rightarrow> (Inl e, m4)
          | (None, m4) \<Rightarrow>
          (case copy_each src dst OIDCToken os m4 of
            (Some e, m5) \<Rightarrow> (Inl e, m5)
          | (None, m5) \<Rightarrow>
          (case copy_each src dst Session ss m5 of
            (Some e, m6) \<Rightarrow> (Inl e, m6)
          | (None, m6) \<Rightarrow> (Inr (length cs, length os, length ss), m6)))) = (r, m')"
    by (simp add: m3_def Let_def)
  from transfer_run[OF this] obtain ts where ts: "calls m' = calls m3 @ ts"
    by blast
  have i: "issued m (snd (CopyCommand src dst m)) =
      [keys_call Credential, keys_call OIDCToken, keys_call Session] @ ts"
    using rm ts by (simp add: issued_def m3_def)
  have all: "\<forall>ns. \<exists>ks. store_keys (backends m src) ns = Inr ks"
  proof
    fix ns show "\<exists>ks. store_keys (backends m src) ns = Inr ks"
      using transfer(1-3) by (cases ns) simp_all
  qed
  then have "\<not> (\<exists>ns e. store_keys (backends m src) ns = Inl e)"
    by (metis Inl_Inr_False)
  with i all show ?thesis by (simp add: keys_call_def)
qed

theorem CopyCommand_lists_before_transfer_witness:
  "(Source, OpGet Credential ''a'') \<in>
     set (issued two_credentials (snd (CopyCommand ''file'' ''keychain'' two_credentials))) \<and>
   is_transfer (OpGet Credential ''a'') \<and>
   take 3 (issued two_credentials (snd (CopyCommand ''file'' ''keychain'' two_credentials))) =
     [(Source, OpKeys Credential), (Source, OpKeys OIDCToken), (Source, OpKeys Session)] \<and>
   store_keys (backends oidc_unlistable ''file'') OIDCToken = Inl (BackendFailure ''listing'') \<and>
   fst (CopyCommand ''file'' ''keychain'' oidc_unlistable) =
     Inl (EnumerationFailed OIDCToken (BackendFailure ''listing'')) \<and>
   backends (snd (CopyCommand ''file'' ''keychain'' oidc_unlistable)) = backends oidc_unlistable"
  using CopyCommand_lists_before_transfer [of two_credentials "''file''" "''keychain''"]
    CopyCommand_lists_before_transfer [of oidc_unlistable "''file''" "''keychain''"]
  by (simp add: two_credentials_def oidc_unlistable_def empty_store_def store_keys_def
      store_get_def store_set_def CopyCommand_def Keys_def Get_def Set_item_def issued_def)

section \<open>Properties of the validator\<close>

subsection \<open>What the structure check accepts\<close>

lemma bt_Star_lang:
  assumes inner: "\<And>s. set (bt n a s) = {u. \<exists>p\<in>lang a. s = p @ u}"
  shows "set (bt n (Star a) s) = {u. \<exists>q\<in>star (lang a). s = q @ u}"
proof (induction "length s" arbitrary: s rule: less_induct)
  case less
  show ?case
  proof (intro set_eqI iffI)
    fix u assume "u \<in> set (bt n (Star a) s)"
    then consider "u = s"
      | t where "t \<in> set (bt n a s)" "length t < length s" "u \<in> set (bt n (Star a) t)"
      using bt_Star_iff[of u n a s] by blast
    then show "u \<in> {u. \<exists>q\<in>star (lang a). s = q @ u}"
    proof cases
      case 1
      then show ?thesis using star_empty[of "lang a"] by force
    next
      case 2
      from 2(1) inner obtain p where p: "p \<in> lang a" "s = p @ t" by auto
      with 2(2) have ne: "p \<noteq> []" by auto
      from less[OF 2(2)] 2(3) obtain q where q: "q \<in> star (lang a)" "t = q @ u" by auto
      from star_round[OF p(1) ne q(1)] p(2) q(2) show ?thesis by force
    qed
  next
    fix u assume "u \<in> {u. \<exists>q\<in>star (lang a). s = q @ u}"
    then obtain q where q: "q \<in> star (lang a)" "s = q @ u" by auto
    from q(1) show "u \<in> set (bt n (Star a) s)" using q(2) less
    proof (induction arbitrary: s)
      case star_empty
      then show ?case using bt_Star_iff[of u n a s] by simp
    next
      case (star_round p q)
      have t: "q @ u \<in> set (bt n a s)" using inner star_round.hyps(1) star_round.prems(1) by auto
      have l: "length (q @ u) < length s" using star_round.hyps(2) star_round.prems(1) by simp
      have "u \<in> set (bt n (Star a) (q @ u))"
      proof (rule star_round.IH[OF refl])
        fix s' :: string assume "length s' < length (q @ u)"
        with l have "length s' < length s" by simp
        then show "set (bt n (Star a) s') = {u. \<exists>q\<in>star (lang a). s' = q @ u}"
          by (rule star_round.prems(2))
      qed
      with t l show ?case using bt_Star_iff[of u n a s] by blast
    qed
  qed
qed

lemma bt_lang: "anchor_free r \<Longrightarrow> set (bt n r s) = {u. \<exists>p\<in>lang r. s = p @ u}"
proof (induction r arbitrary: s)
  case (Lit w)
  show ?case by (auto simp: prefix_def)
next
  case Space
  show ?case by (cases s) auto
next
  case (Alt a b)
  then show ?case by auto
next
  case (Seq a b)
  then have a: "\<And>s. set (bt n a s) = {u. \<exists>p\<in>lang a. s = p @ u}"
    and b: "\<And>s. set (bt n b s) = {u. \<exists>p\<in>lang b. s = p @ u}" by simp_all
  show ?case
  proof (intro set_eqI iffI)
    fix u assume "u \<in> set (bt n (Seq a b) s)"
    then obtain t where "t \<in> set (bt n a s)" "u \<in> set (bt n b t)" by auto
    with a b obtain p q where "p \<in> lang a" "s = p @ t" "q \<in> lang b" "t = q @ u" by auto
    then have "p @ q \<in> lang (Seq a b)" "s = (p @ q) @ u" by auto
    then show "u \<in> {u. \<exists>p\<in>lang (Seq a b). s = p @ u}" by blast
  next
    fix u assume "u \<in> {u. \<exists>p\<in>lang (Seq a b). s = p @ u}"
    then obtain p q where pq: "p \<in> lang a" "q \<in> lang b" "s = p @ q @ u" by auto
    then have "q @ u \<in> set (bt n a s)" using a by auto
    moreover have "u \<in> set (bt n b (q @ u))" using b pq(2) by auto
    ultimately show "u \<in> set (bt n (Seq a b) s)" by auto
  qed
next
  case (Star a)
  then show ?case using bt_Star_lang[of n a s] by simp
next
  case Bol
  then show ?case by simp
next
  case Eol
  then show ?case by simp
qed


lemma leftmost_None_iff:
  "leftmost r s i = None \<longleftrightarrow> (\<forall>j. i \<le> j \<and> j \<le> length s \<longrightarrow> bt (length s) r (drop j s) = [])"
proof (induction r s i rule: leftmost.induct)
  case (1 r s i)
  note unfold = leftmost.simps[of r s i]
  show ?case
  proof (cases "length s < i")
    case True
    then have "\<not> (\<exists>j. i \<le> j \<and> j \<le> length s)" by arith
    with True unfold show ?thesis by auto
  next
    case False
    show ?thesis
    proof (cases "bt (length s) r (drop i s)")
      case Nil
      with False unfold have "leftmost r s i = leftmost r s (Suc i)" by simp
      also have "\<dots> = None \<longleftrightarrow>
          (\<forall>j. Suc i \<le> j \<and> j \<le> length s \<longrightarrow> bt (length s) r (drop j s) = [])"
        using "1.IH"[OF False Nil] .
      also have "\<dots> \<longleftrightarrow> (\<forall>j. i \<le> j \<and> j \<le> length s \<longrightarrow> bt (length s) r (drop j s) = [])"
        using Nil by (metis Suc_leI le_neq_implies_less Suc_leD)
      finally show ?thesis .
    next
      case (Cons rest others)
      with False unfold have "leftmost r s i \<noteq> None" by simp
      moreover have "\<not> (\<forall>j. i \<le> j \<and> j \<le> length s \<longrightarrow> bt (length s) r (drop j s) = [])"
        using Cons False by (metis list.distinct(1) not_less order_refl)
      ultimately show ?thesis by blast
    qed
  qed
qed

lemma bt_structure_regex:
  "bt n (structure_regex T) u \<noteq> [] \<longleftrightarrow>
     length u = n \<and>
     [] \<in> set (bt n (Seq T (Star (Seq (Star Space)
                       (Seq (Alt (Lit ''And'') (Lit ''Or''))
                          (Seq (Star Space) T))))) u)"
proof -
  have "bt n (structure_regex T) u \<noteq> [] \<longleftrightarrow> set (bt n (structure_regex T) u) \<noteq> {}"
    by simp
  also have "\<dots> \<longleftrightarrow> length u = n \<and>
     [] \<in> set (bt n (Seq T (Star (Seq (Star Space)
                       (Seq (Alt (Lit ''And'') (Lit ''Or''))
                          (Seq (Star Space) T))))) u)"
    unfolding structure_regex_def by (auto split: if_splits)
  finally show ?thesis .
qed

lemma MatchString_structure_regex:
  assumes "anchor_free T"
  shows "MatchString (structure_regex T) s \<longleftrightarrow>
     s \<in> lang (Seq T (Star (Seq (Star Space)
                       (Seq (Alt (Lit ''And'') (Lit ''Or''))
                          (Seq (Star Space) T)))))"
    (is "_ \<longleftrightarrow> s \<in> lang ?body")
proof -
  have af: "anchor_free ?body" using assms by simp
  have "MatchString (structure_regex T) s \<longleftrightarrow>
      (\<exists>j. j \<le> length s \<and> bt (length s) (structure_regex T) (drop j s) \<noteq> [])"
    unfolding MatchString_def using leftmost_None_iff[of "structure_regex T" s 0] by auto
  also have "\<dots> \<longleftrightarrow> (\<exists>j. j \<le> length s \<and> length (drop j s) = length s \<and>
      [] \<in> set (bt (length s) ?body (drop j s)))"
    unfolding bt_structure_regex ..
  also have "\<dots> \<longleftrightarrow> [] \<in> set (bt (length s) ?body s)"
  proof
    assume "\<exists>j. j \<le> length s \<and> length (drop j s) = length s \<and>
      [] \<in> set (bt (length s) ?body (drop j s))"
    then obtain j where j: "j \<le> length s" "length (drop j s) = length s"
      "[] \<in> set (bt (length s) ?body (drop j s))" by blast
    from j(1,2) have "drop j s = s" by (cases "j = 0") auto
    with j(3) show "[] \<in> set (bt (length s) ?body s)" by simp
  next
    assume "[] \<in> set (bt (length s) ?body s)"
    then have "0 \<le> length s \<and> length (drop 0 s) = length s \<and>
      [] \<in> set (bt (length s) ?body (drop 0 s))" by simp
    then show "\<exists>j. j \<le> length s \<and> length (drop j s) = length s \<and>
      [] \<in> set (bt (length s) ?body (drop j s))" by blast
  qed
  also have "\<dots> \<longleftrightarrow> s \<in> lang ?body"
    unfolding bt_lang[OF af] by simp
  finally show ?thesis .
qed


lemma lang_alternatives: "ts \<noteq> [] \<Longrightarrow> lang (alternatives ts) = set ts"
  by (induction ts rule: alternatives.induct) auto

lemma anchor_free_alternatives: "anchor_free (alternatives ts)"
  by (induction ts rule: alternatives.induct) auto

lemma lang_Star_Space: "lang (Star Space) = {w. list_all is_space w}"
proof (intro set_eqI iffI)
  fix w assume "w \<in> lang (Star Space)"
  then have "w \<in> star (lang Space)" by simp
  then show "w \<in> {w. list_all is_space w}"
    by induction auto
next
  fix w assume "w \<in> {w. list_all is_space w}"
  then have "list_all is_space w" by simp
  then have "w \<in> star (lang Space)"
  proof (induction w)
    case Nil
    show ?case by (rule star_empty)
  next
    case (Cons c w)
    then have "[c] \<in> lang Space" "w \<in> star (lang Space)" by auto
    from star_round[OF this(1) _ this(2)] show ?case by simp
  qed
  then show "w \<in> lang (Star Space)" by simp
qed

lemma lang_SeqI: "p \<in> lang a \<Longrightarrow> q \<in> lang b \<Longrightarrow> p @ q \<in> lang (Seq a b)"
  by auto

lemma lang_SeqE:
  assumes "x \<in> lang (Seq a b)"
  obtains p q where "x = p @ q" "p \<in> lang a" "q \<in> lang b"
  using assms by auto

lemma lang_Seq_Star:
  "lang (Seq a (Star b)) = {p @ q | p q. p \<in> lang a \<and> q \<in> star (lang b)}"
  by simp

lemma lang_link:
  "lang (Seq (Star Space) (Seq (Alt (Lit ''And'') (Lit ''Or''))
      (Seq (Star Space) (alternatives accessControlOptions)))) = {link_text l | l. link_ok l}"
proof -
  have v: "lang (alternatives accessControlOptions) = set accessControlOptions"
    by (rule lang_alternatives) (simp add: accessControlOptions_def)
  have c: "lang (Alt (Lit ''And'') (Lit ''Or'')) = {''And'', ''Or''}" by auto
  show ?thesis
  proof (intro set_eqI iffI)
    fix x
    assume "x \<in> lang (Seq (Star Space) (Seq (Alt (Lit ''And'') (Lit ''Or''))
      (Seq (Star Space) (alternatives accessControlOptions))))"
    then obtain w1 r1 where 1: "x = w1 @ r1" "w1 \<in> lang (Star Space)"
      "r1 \<in> lang (Seq (Alt (Lit ''And'') (Lit ''Or''))
         (Seq (Star Space) (alternatives accessControlOptions)))"
      by (rule lang_SeqE)
    from 1(3) obtain c r2 where 2: "r1 = c @ r2" "c \<in> lang (Alt (Lit ''And'') (Lit ''Or''))"
      "r2 \<in> lang (Seq (Star Space) (alternatives accessControlOptions))"
      by (rule lang_SeqE)
    from 2(3) obtain w2 u where 3: "r2 = w2 @ u" "w2 \<in> lang (Star Space)"
      "u \<in> lang (alternatives accessControlOptions)"
      by (rule lang_SeqE)
    have "x = link_text (w1, c, w2, u)" using 1(1) 2(1) 3(1) by (simp add: link_text_def)
    moreover have "link_ok (w1, c, w2, u)"
      using 1(2) 2(2) 3(2,3) unfolding lang_Star_Space v c by (simp add: link_ok_def)
    ultimately show "x \<in> {link_text l | l. link_ok l}" by blast
  next
    fix x assume "x \<in> {link_text l | l. link_ok l}"
    then obtain l where l: "x = link_text l" "link_ok l" by blast
    obtain w1 c w2 u where t: "l = (w1, c, w2, u)" by (cases l)
    with l have x: "x = w1 @ c @ w2 @ u" and ok: "list_all is_space w1"
      "c \<in> {''And'', ''Or''}" "list_all is_space w2" "u \<in> set accessControlOptions"
      by (simp_all add: link_text_def link_ok_def)
    have "w2 \<in> lang (Star Space)" using ok(3) unfolding lang_Star_Space by simp
    moreover have "u \<in> lang (alternatives accessControlOptions)" using ok(4) unfolding v .
    ultimately have "w2 @ u \<in> lang (Seq (Star Space) (alternatives accessControlOptions))"
      by (rule lang_SeqI)
    moreover have "c \<in> lang (Alt (Lit ''And'') (Lit ''Or''))" using ok(2) unfolding c .
    ultimately have "c @ w2 @ u \<in> lang (Seq (Alt (Lit ''And'') (Lit ''Or''))
         (Seq (Star Space) (alternatives accessControlOptions)))"
      by (rule lang_SeqI[rotated])
    moreover have "w1 \<in> lang (Star Space)" using ok(1) unfolding lang_Star_Space by simp
    ultimately have "w1 @ c @ w2 @ u \<in> lang (Seq (Star Space) (Seq (Alt (Lit ''And'') (Lit ''Or''))
      (Seq (Star Space) (alternatives accessControlOptions))))"
      by (rule lang_SeqI[rotated])
    with x show "x \<in> lang (Seq (Star Space) (Seq (Alt (Lit ''And'') (Lit ''Or''))
      (Seq (Star Space) (alternatives accessControlOptions))))" by simp
  qed
qed

lemma link_text_nonempty: "link_ok l \<Longrightarrow> link_text l \<noteq> []"
  by (cases l) (auto simp: link_ok_def link_text_def)

lemma star_links:
  "star {link_text l | l. link_ok l} =
     {concat (map link_text links) | links. list_all link_ok links}"
proof (intro set_eqI iffI)
  fix x assume "x \<in> star {link_text l | l. link_ok l}"
  then show "x \<in> {concat (map link_text links) | links. list_all link_ok links}"
  proof induction
    case star_empty
    have "[] = concat (map link_text [])" "list_all link_ok []" by simp_all
    then show ?case by blast
  next
    case (star_round p q)
    from star_round.hyps(1) obtain l where l: "p = link_text l" "link_ok l" by blast
    from star_round.IH obtain links where k: "q = concat (map link_text links)"
      "list_all link_ok links" by blast
    from l k have "p @ q = concat (map link_text (l # links))" "list_all link_ok (l # links)"
      by simp_all
    then show ?case by blast
  qed
next
  fix x assume "x \<in> {concat (map link_text links) | links. list_all link_ok links}"
  then obtain links where x: "x = concat (map link_text links)" and ok: "list_all link_ok links"
    by blast
  from ok have "concat (map link_text links) \<in> star {link_text l | l. link_ok l}"
  proof (induction links)
    case Nil
    show ?case by (simp add: star_empty)
  next
    case (Cons l links)
    then have ok: "link_ok l" and r: "concat (map link_text links) \<in> star {link_text l | l. link_ok l}"
      by simp_all
    from ok have "link_text l \<in> {link_text l | l. link_ok l}" by blast
    from star_round[OF this link_text_nonempty[OF ok] r] show ?case by simp
  qed
  with x show "x \<in> star {link_text l | l. link_ok l}" by simp
qed

lemma MatchString_iff_spaced:
  "MatchString (structure_regex (alternatives accessControlOptions)) s \<longleftrightarrow>
     s \<in> spaced_expressions"
proof -
  have v: "lang (alternatives accessControlOptions) = set accessControlOptions"
    by (rule lang_alternatives) (simp add: accessControlOptions_def)
  have body: "lang (Seq (alternatives accessControlOptions) (Star (Seq (Star Space)
        (Seq (Alt (Lit ''And'') (Lit ''Or''))
           (Seq (Star Space) (alternatives accessControlOptions)))))) =
      {t @ q | t q. t \<in> set accessControlOptions \<and>
         q \<in> {concat (map link_text links) | links. list_all link_ok links}}"
    unfolding lang_Seq_Star lang_link star_links v ..
  have "s \<in> {t @ q | t q. t \<in> set accessControlOptions \<and>
         q \<in> {concat (map link_text links) | links. list_all link_ok links}} \<longleftrightarrow>
        s \<in> spaced_expressions"
  proof
    assume "s \<in> {t @ q | t q. t \<in> set accessControlOptions \<and>
         q \<in> {concat (map link_text links) | links. list_all link_ok links}}"
    then obtain t links where "s = t @ concat (map link_text links)"
      "t \<in> set accessControlOptions" "list_all link_ok links" by blast
    then have "s = spaced_join t links" "spaced_well_formed t links"
      by (simp_all add: spaced_join_def spaced_well_formed_def)
    then show "s \<in> spaced_expressions" unfolding spaced_expressions_def by blast
  next
    assume "s \<in> spaced_expressions"
    then obtain t links where "s = spaced_join t links" "spaced_well_formed t links"
      unfolding spaced_expressions_def by blast
    then have "s = t @ concat (map link_text links)"
      "t \<in> set accessControlOptions" "list_all link_ok links"
      by (simp_all add: spaced_join_def spaced_well_formed_def)
    then show "s \<in> {t @ q | t q. t \<in> set accessControlOptions \<and>
         q \<in> {concat (map link_text links) | links. list_all link_ok links}}" by blast
  qed
  then show ?thesis
    unfolding MatchString_structure_regex[OF anchor_free_alternatives] body .
qed

subsection \<open>What the split returns on an accepted setting\<close>

lemma link_text_tuple: "link_text (w1, c, w2, u) = w1 @ c @ w2 @ u"
  by (simp add: link_text_def)

lemma link_term_tuple: "link_term (w1, c, w2, u) = u"
  by (simp add: link_term_def)

lemma link_ok_tuple:
  "link_ok (w1, c, w2, u) \<longleftrightarrow>
     list_all is_space w1 \<and> c \<in> {''And'', ''Or''} \<and> list_all is_space w2 \<and>
     u \<in> set accessControlOptions"
  by (simp add: link_ok_def)

lemma bt_Star_Space_stop:
  "y = [] \<or> \<not> is_space (hd y) \<Longrightarrow> bt m (Star Space) y = [y]"
  by (subst bt.simps(5)) (cases y, auto)

lemma bt_Star_Space_greedy:
  "list_all is_space w \<Longrightarrow> y = [] \<or> \<not> is_space (hd y) \<Longrightarrow>
     \<exists>others. bt m (Star Space) (w @ y) = y # others"
proof (induction w)
  case Nil
  then show ?case by (simp add: bt_Star_Space_stop)
next
  case (Cons c w)
  then obtain others where o: "bt m (Star Space) (w @ y) = y # others" by auto
  have "bt m (Star Space) ((c # w) @ y) = bt m (Star Space) (w @ y) @ [(c # w) @ y]"
    using Cons.prems(1) by (subst bt.simps(5)) simp
  with o show ?case by simp
qed

lemma bt_splitRegex_start:
  assumes "y = [] \<or> \<not> is_space (hd y)"
  shows "bt m splitRegex y =
     (if prefix ''And'' y then bt m (Star Space) (drop (length ''And'') y) else []) @
     (if prefix ''Or'' y then bt m (Star Space) (drop (length ''Or'') y) else [])"
  unfolding splitRegex_def using bt_Star_Space_stop[OF assms, of m] by simp

lemma bt_splitRegex_hit:
  assumes w1: "list_all is_space w1" and c: "c \<in> {''And'', ''Or''}"
    and w2: "list_all is_space w2" and y: "y = [] \<or> \<not> is_space (hd y)"
  shows "\<exists>others. bt m splitRegex (w1 @ c @ w2 @ y) = y # others"
proof -
  from c have cy: "c @ w2 @ y = [] \<or> \<not> is_space (hd (c @ w2 @ y))"
    by (auto simp: is_space_def)
  from bt_Star_Space_greedy[OF w1 cy, of m] obtain o1 where
    o1: "bt m (Star Space) (w1 @ c @ w2 @ y) = (c @ w2 @ y) # o1" by blast
  from bt_Star_Space_greedy[OF w2 y, of m] obtain o2 where
    o2: "bt m (Star Space) (w2 @ y) = y # o2" by blast
  have "bt m (Seq (Alt (Lit ''And'') (Lit ''Or'')) (Star Space)) (c @ w2 @ y) = y # o2"
    using c o2 by auto
  then show ?thesis unfolding splitRegex_def using o1 by simp
qed

lemma term_quiet:
  assumes "t \<in> set accessControlOptions" "j < length t"
  shows "bt m splitRegex (drop j t @ z) = []"
proof -
  have "drop j t \<noteq> [] \<and> \<not> is_space (hd (drop j t)) \<and>
        \<not> prefix ''And'' (drop j t @ z) \<and> \<not> prefix ''Or'' (drop j t @ z)"
    using assms
    by (auto simp: accessControlOptions_def less_Suc_eq is_space_def numeral_eq_Suc)
  then show ?thesis
    using bt_splitRegex_start[of "drop j t @ z" m] by simp
qed

lemma term_shape:
  "t \<in> set accessControlOptions \<Longrightarrow> t \<noteq> [] \<and> \<not> is_space (hd t)"
  by (auto simp: accessControlOptions_def is_space_def)


lemma leftmost_skip:
  assumes "i \<le> k" "k \<le> length s"
    and "\<And>j. i \<le> j \<Longrightarrow> j < k \<Longrightarrow> bt (length s) r (drop j s) = []"
  shows "leftmost r s i = leftmost r s k"
  using assms
proof (induction "k - i" arbitrary: i)
  case 0
  then show ?case by simp
next
  case (Suc d)
  then have lt: "i < k" and le: "\<not> length s < i" by simp_all
  have "bt (length s) r (drop i s) = []" using Suc.prems(3)[of i] lt by simp
  then have "leftmost r s i = leftmost r s (Suc i)"
    using le by (subst leftmost.simps) simp
  also have "\<dots> = leftmost r s k"
  proof (rule Suc.hyps(1))
    show "d = k - Suc i" using Suc.hyps(2) by simp
    show "Suc i \<le> k" using lt by simp
    show "k \<le> length s" by (rule Suc.prems(2))
    show "bt (length s) r (drop j s) = []" if "Suc i \<le> j" "j < k" for j
      using that Suc.prems(3)[of j] by simp
  qed
  finally show ?case .
qed

lemma leftmost_hit:
  "k \<le> length s \<Longrightarrow> bt (length s) r (drop k s) = rest # others \<Longrightarrow>
     leftmost r s k = Some (k, length s - length rest)"
  by (subst leftmost.simps) simp

lemma bt_splitRegex_Nil: "bt m splitRegex [] = []"
  using bt_splitRegex_start[of "[]" m] by simp

lemma allMatches_joined:
  assumes "t \<in> set accessControlOptions" "list_all link_ok links"
  shows "allMatches splitRegex (pre @ t @ concat (map link_text links)) (length pre) p =
           separators (length pre + length t) links"
  using assms
proof (induction links arbitrary: pre t p)
  case Nil
  let ?s = "pre @ t"
  have "bt (length ?s) splitRegex (drop j ?s) = []" if "length pre \<le> j" "j \<le> length ?s" for j
  proof (cases "j < length ?s")
    case True
    with that have "drop j ?s = drop (j - length pre) t @ []" "j - length pre < length t"
      by simp_all
    with term_quiet[OF Nil.prems(1), of "j - length pre" "length ?s" "[]"] show ?thesis
      by simp
  next
    case False
    with that have "drop j ?s = []" by simp
    then show ?thesis by (simp add: bt_splitRegex_Nil)
  qed
  then have "leftmost splitRegex ?s (length pre) = None"
    unfolding leftmost_None_iff by blast
  then show ?case by (subst allMatches.simps) simp
next
  case (Cons l links)
  obtain w1 c w2 u where l: "l = (w1, c, w2, u)" by (cases l)
  from Cons.prems(2) have lok: "link_ok l" and rest: "list_all link_ok links" by simp_all
  from lok have "list_all is_space w1" "c \<in> {''And'', ''Or''}"
    "list_all is_space w2" "u \<in> set accessControlOptions"
    unfolding l by (simp_all add: link_ok_def)
  with rest have ok: "list_all is_space w1" "c \<in> {''And'', ''Or''}"
    "list_all is_space w2" "u \<in> set accessControlOptions" "list_all link_ok links"
    by simp_all
  define y where "y = u @ concat (map link_text links)"
  define sep where "sep = w1 @ c @ w2"
  define s where "s = pre @ t @ concat (map link_text (l # links))"
  have s: "s = pre @ t @ sep @ y" by (simp add: s_def l link_text_def sep_def y_def)
  have sep_len: "0 < length sep" using ok(2) by (auto simp: sep_def)
  have yshape: "y = [] \<or> \<not> is_space (hd y)" using term_shape[OF ok(4)] by (simp add: y_def)
  from bt_splitRegex_hit[OF ok(1-3) yshape, of "length s"] obtain others where
    hit: "bt (length s) splitRegex (sep @ y) = y # others" by (auto simp: sep_def)
  have quiet: "bt (length s) splitRegex (drop j s) = []"
    if "length pre \<le> j" "j < length pre + length t" for j
  proof -
    from that have "drop j s = drop (j - length pre) t @ sep @ y" "j - length pre < length t"
      by (simp_all add: s)
    with term_quiet[OF Cons.prems(1), of "j - length pre" "length s" "sep @ y"] show ?thesis
      by simp
  qed
  have "leftmost splitRegex s (length pre) = leftmost splitRegex s (length pre + length t)"
  proof (rule leftmost_skip)
    show "length pre \<le> length pre + length t" by simp
    show "length pre + length t \<le> length s" by (simp add: s)
    show "bt (length s) splitRegex (drop j s) = []"
      if "length pre \<le> j" "j < length pre + length t" for j
      using quiet[OF that] .
  qed
  also have "\<dots> = Some (length pre + length t, length s - length y)"
  proof (rule leftmost_hit)
    show "length pre + length t \<le> length s" by (simp add: s)
    have "drop (length pre + length t) s = sep @ y" by (simp add: s)
    with hit show "bt (length s) splitRegex (drop (length pre + length t) s) = y # others"
      by simp
  qed
  finally have lm: "leftmost splitRegex s (length pre) =
      Some (length pre + length t, length pre + length t + length sep)"
    by (simp add: s)
  have step: "allMatches splitRegex s (length pre) p =
      (length pre + length t, length pre + length t + length sep) #
      allMatches splitRegex s (length pre + length t + length sep)
        (int (length pre + length t + length sep))"
    using lm sep_len by (subst allMatches.simps) (simp add: s)
  have "allMatches splitRegex ((pre @ t @ sep) @ u @ concat (map link_text links))
          (length (pre @ t @ sep)) (int (length pre + length t + length sep)) =
        separators (length (pre @ t @ sep) + length u) links"
    by (rule Cons.IH[OF ok(4,5)])
  then have "allMatches splitRegex s (length pre + length t + length sep)
        (int (length pre + length t + length sep)) =
      separators (length pre + length t + length sep + length u) links"
    by (simp add: s y_def add.assoc)
  with step show ?case
    unfolding s_def[symmetric] by (simp add: l sep_def add.assoc)
qed


lemma split_pieces_joined:
  assumes "list_all link_ok links" "e0 < length pre + length t"
  shows "split_pieces (pre @ t @ concat (map link_text links))
           (separators (length pre + length t) links) (length pre) e0 strings =
         strings @ t # map link_term links"
  using assms
proof (induction links arbitrary: pre t e0 strings)
  case Nil
  then show ?case by simp
next
  case (Cons l links)
  obtain w1 c w2 u where l: "l = (w1, c, w2, u)" by (cases l)
  from Cons.prems(1) have lok: "link_ok l" and rest: "list_all link_ok links" by simp_all
  from lok have c: "c \<in> {''And'', ''Or''}" unfolding l by (simp add: link_ok_def)
  define sep where "sep = w1 @ c @ w2"
  have sep_len: "0 < length sep" using c by (auto simp: sep_def)
  have "split_pieces ((pre @ t @ sep) @ u @ concat (map link_text links))
          (separators (length (pre @ t @ sep) + length u) links) (length (pre @ t @ sep))
          (length pre + length t) (strings @ [t]) =
        (strings @ [t]) @ u # map link_term links"
    by (rule Cons.IH[OF rest]) (use sep_len in simp)
  then show ?case
    using sep_len by (simp add: l link_text_tuple link_term_tuple sep_def add.assoc)
qed

lemma Split_spaced_join:
  assumes "spaced_well_formed t links"
  shows "Split splitRegex (spaced_join t links) = t # map link_term links"
proof -
  from assms have t: "t \<in> set accessControlOptions" and ok: "list_all link_ok links"
    by (simp_all add: spaced_well_formed_def)
  from term_shape[OF t] have ne: "t \<noteq> []" by simp
  have "allMatches splitRegex ([] @ t @ concat (map link_text links)) (length ([]::string)) (- 1) =
      separators (length ([]::string) + length t) links"
    by (rule allMatches_joined[OF t ok])
  moreover have "split_pieces ([] @ t @ concat (map link_text links))
      (separators (length ([]::string) + length t) links) (length ([]::string)) 0 [] =
      [] @ t # map link_term links"
    by (rule split_pieces_joined[OF ok]) (simp add: ne)
  ultimately show ?thesis using ne by (simp add: Split_def spaced_join_def)
qed

lemma TrimSpace_terms: "list_all (\<lambda>t. TrimSpace t = t) accessControlOptions"
  by code_simp

lemma TrimSpace_term: "t \<in> set accessControlOptions \<Longrightarrow> TrimSpace t = t"
  using TrimSpace_terms unfolding list_all_iff by blast

lemma repeated_distinct:
  assumes "\<forall>t\<in>set ts. TrimSpace t = t" "distinct ts" "\<forall>t\<in>set ts. \<not> seen t"
  shows "repeated ts seen = None"
  using assms
proof (induction ts arbitrary: seen)
  case Nil
  show ?case by simp
next
  case (Cons x ts)
  have "repeated ts (seen(x := True)) = None"
  proof (rule Cons.IH)
    show "\<forall>t\<in>set ts. TrimSpace t = t" using Cons.prems(1) by simp
    show "distinct ts" using Cons.prems(2) by simp
    show "\<forall>t\<in>set ts. \<not> (seen(x := True)) t" using Cons.prems(2,3) by auto
  qed
  with Cons.prems show ?case by (simp add: Let_def)
qed

lemma repeated_first:
  assumes "\<forall>t\<in>set ts. TrimSpace t = t" "j < length ts" "distinct (take j ts)"
    "\<forall>t\<in>set (take j ts). \<not> seen t" "ts ! j \<in> set (take j ts) \<or> seen (ts ! j)"
  shows "repeated ts seen = Some (ts ! j)"
  using assms
proof (induction ts arbitrary: seen j)
  case Nil
  then show ?case by simp
next
  case (Cons x ts)
  show ?case
  proof (cases j)
    case 0
    with Cons.prems show ?thesis by (simp add: Let_def)
  next
    case (Suc i)
    with Cons.prems have x: "TrimSpace x = x" "\<not> seen x" by simp_all
    have "repeated ts (seen(x := True)) = Some (ts ! i)"
    proof (rule Cons.IH)
      show "\<forall>t\<in>set ts. TrimSpace t = t" using Cons.prems(1) by simp
      show "i < length ts" using Cons.prems(2) Suc by simp
      show "distinct (take i ts)" using Cons.prems(3) Suc by simp
      show "\<forall>t\<in>set (take i ts). \<not> (seen(x := True)) t" using Cons.prems(3,4) Suc by auto
      show "ts ! i \<in> set (take i ts) \<or> (seen(x := True)) (ts ! i)"
        using Cons.prems(5) Suc by auto
    qed
    with x Suc show ?thesis by (simp add: Let_def)
  qed
qed

lemma first_repeat_exists:
  "\<not> distinct ts \<Longrightarrow> \<exists>j<length ts. distinct (take j ts) \<and> ts ! j \<in> set (take j ts)"
proof (induction ts rule: rev_induct)
  case Nil
  then show ?case by simp
next
  case (snoc x ts)
  show ?case
  proof (cases "distinct ts")
    case True
    with snoc.prems have "x \<in> set ts" by simp
    with True have "length ts < length (ts @ [x]) \<and> distinct (take (length ts) (ts @ [x])) \<and>
        (ts @ [x]) ! length ts \<in> set (take (length ts) (ts @ [x]))" by simp
    then show ?thesis by blast
  next
    case False
    with snoc.IH obtain j where "j < length ts" "distinct (take j ts)" "ts ! j \<in> set (take j ts)"
      by blast
    then have "j < length (ts @ [x]) \<and> distinct (take j (ts @ [x])) \<and>
        (ts @ [x]) ! j \<in> set (take j (ts @ [x]))" by (simp add: nth_append)
    then show ?thesis by blast
  qed
qed

lemma validate_spaced:
  assumes "spaced_well_formed t links" "accessControl a = spaced_join t links"
  shows "validateAccessControls a =
     (case repeated (t # map link_term links) (\<lambda>t. False) of
        Some d \<Rightarrow> Inl (DuplicateTerm d)
      | None \<Rightarrow> Inr (t # map link_term links))"
proof -
  have "accessControl a \<in> spaced_expressions"
    using assms unfolding spaced_expressions_def by blast
  then have "MatchString (structure_regex (alternatives accessControlOptions)) (accessControl a)"
    by (simp add: MatchString_iff_spaced)
  then show ?thesis
    by (simp add: validateAccessControls_def Let_def assms(2) Split_spaced_join[OF assms(1)])
qed

lemma spaced_terms:
  "spaced_well_formed t links \<Longrightarrow> \<forall>x\<in>set (t # map link_term links). TrimSpace x = x"
  by (auto simp: spaced_well_formed_def list_all_iff link_ok_def link_term_def TrimSpace_term)

subsection \<open>The claims about the validator\<close>

lemma tight_join: "spaced_join t (tight rest) = join_terms t rest"
  by (induction rest) (auto simp: spaced_join_def join_terms_def tight_def link_text_tuple)

lemma tight_terms: "map link_term (tight rest) = map snd rest"
  by (induction rest) (auto simp: tight_def link_term_tuple)

lemma tight_well_formed: "well_formed t rest \<Longrightarrow> spaced_well_formed t (tight rest)"
  by (induction rest) (auto simp: well_formed_def spaced_well_formed_def tight_def link_ok_tuple)

lemma validate_joined:
  assumes "well_formed t rest" "accessControl a = join_terms t rest"
  shows "validateAccessControls a =
     (case repeated (t # map snd rest) (\<lambda>t. False) of
        Some d \<Rightarrow> Inl (DuplicateTerm d)
      | None \<Rightarrow> Inr (t # map snd rest))"
  using validate_spaced[OF tight_well_formed[OF assms(1)], of a] assms(2)
  unfolding tight_join tight_terms by blast

text \<open>
  Claim C3. A setting made of one or more distinct terms of the vocabulary, joined by
  conjunctions taken from \<open>And\<close> and \<open>Or\<close> in that exact casing, is accepted: the validator
  returns exactly the terms, in order, and no error.
\<close>

theorem validate_joined_distinct:
  assumes "well_formed t rest"
    and "distinct (t # map snd rest)"
    and "accessControl a = join_terms t rest"
  shows "validateAccessControls a = Inr (t # map snd rest)"
proof -
  have "\<forall>x\<in>set (t # map snd rest). TrimSpace x = x"
    using spaced_terms[OF tight_well_formed[OF assms(1)]] by (simp add: tight_terms)
  then have "repeated (t # map snd rest) (\<lambda>t. False) = None"
    using assms(2) by (intro repeated_distinct) simp_all
  with validate_joined[OF assms(1,3)] show ?thesis by simp
qed

theorem validate_joined_distinct_witness:
  "validateAccessControls (vault_with ''UserPresenceAndBiometryAnySetOrWatch'') =
     Inr [''UserPresence'', ''BiometryAnySet'', ''Watch'']"
  using validate_joined_distinct
    [of "''UserPresence''" "[(''And'', ''BiometryAnySet''), (''Or'', ''Watch'')]"
        "vault_with ''UserPresenceAndBiometryAnySetOrWatch''"]
  by (simp add: well_formed_def join_terms_def accessControlOptions_def vault_with_def)

text \<open>
  Claim C5. A setting that passes the structure check (a first term and links, each link a
  conjunction with optional white space around it and a term) and in which some term
  occurs more than once is refused with \<open>DuplicateTerm\<close>. The term named is the first one,
  reading from left to right, that has occurred before: the term at the first position
  \<open>j\<close> whose earlier positions are all distinct and already contain it.
\<close>

theorem validate_repeated_term:
  assumes "spaced_well_formed t links"
    and "accessControl a = spaced_join t links"
    and "\<not> distinct (t # map link_term links)"
  shows "\<exists>j<length (t # map link_term links).
           distinct (take j (t # map link_term links)) \<and>
           (t # map link_term links) ! j \<in> set (take j (t # map link_term links)) \<and>
           validateAccessControls a = Inl (DuplicateTerm ((t # map link_term links) ! j))"
proof -
  let ?ts = "t # map link_term links"
  from first_repeat_exists[OF assms(3)] obtain j where
    j: "j < length ?ts" "distinct (take j ?ts)" "?ts ! j \<in> set (take j ?ts)" by blast
  have "repeated ?ts (\<lambda>t. False) = Some (?ts ! j)"
    using spaced_terms[OF assms(1)] j by (intro repeated_first) simp_all
  with validate_spaced[OF assms(1,2)] have
    "validateAccessControls a = Inl (DuplicateTerm (?ts ! j))" by simp
  with j show ?thesis by blast
qed

theorem validate_repeated_term_witness:
  "validateAccessControls (vault_with ''WatchAndUserPresence Or WatchAndUserPresence'') =
     Inl (DuplicateTerm ''Watch'')"
proof -
  have e: "validateAccessControls (vault_with ''WatchAndUserPresence Or WatchAndUserPresence'') =
     Inl (DuplicateTerm ''Watch'')"
    by code_simp
  have "spaced_well_formed ''Watch''
      [([], ''And'', [], ''UserPresence''), ('' '', ''Or'', '' '', ''Watch''),
       ([], ''And'', [], ''UserPresence'')]"
    by (simp add: spaced_well_formed_def link_ok_tuple accessControlOptions_def is_space_def)
  moreover have "accessControl (vault_with ''WatchAndUserPresence Or WatchAndUserPresence'') =
      spaced_join ''Watch''
      [([], ''And'', [], ''UserPresence''), ('' '', ''Or'', '' '', ''Watch''),
       ([], ''And'', [], ''UserPresence'')]"
    by (simp add: vault_with_def spaced_join_def link_text_tuple)
  moreover have "\<not> distinct (''Watch'' # map link_term
      [([], ''And'', [], ''UserPresence''), ('' '', ''Or'', '' '', ''Watch''),
       ([], ''And'', [], ''UserPresence'')])"
    by (simp add: link_term_tuple)
  ultimately show ?thesis
    using validate_repeated_term
      [of "''Watch''" "[([], ''And'', [], ''UserPresence''), ('' '', ''Or'', '' '', ''Watch''),
       ([], ''And'', [], ''UserPresence'')]"
       "vault_with ''WatchAndUserPresence Or WatchAndUserPresence''"] e
    by simp
qed

text \<open>
  Claim C8. The settings \<open>AndUserPresence\<close>, \<open>UserPresenceAnd\<close>, \<open>UserPresence,Watch\<close> and
  \<open>UserPresenceAndAndWatch\<close> are each refused with \<open>InvalidSyntax\<close>.
\<close>

theorem validate_rejects_examples:
  "validateAccessControls (vault_with ''AndUserPresence'') =
     Inl (InvalidSyntax ''AndUserPresence'') \<and>
   validateAccessControls (vault_with ''UserPresenceAnd'') =
     Inl (InvalidSyntax ''UserPresenceAnd'') \<and>
   validateAccessControls (vault_with ''UserPresence,Watch'') =
     Inl (InvalidSyntax ''UserPresence,Watch'') \<and>
   validateAccessControls (vault_with ''UserPresenceAndAndWatch'') =
     Inl (InvalidSyntax ''UserPresenceAndAndWatch'')"
  by code_simp



lemma term_no_conjunction:
  assumes "t \<in> set accessControlOptions" "j < length t"
  shows "\<not> prefix ''And'' (drop j t @ z) \<and> \<not> prefix ''Or'' (drop j t @ z)"
  using assms
  by (auto simp: accessControlOptions_def less_Suc_eq numeral_eq_Suc)





text \<open>
  The structure check also tolerates white space around a conjunction. On such a setting
  the stripped pieces keep the white space, while the returned terms do not.
\<close>

lemma strip_conjunctions_keeps_blanks:
  "strip_conjunctions ''UserPresence And Watch'' = [''UserPresence '', '' Watch'']"
  by code_simp

lemma validate_InvalidSyntax_iff:
  "validateAccessControls a = Inl (InvalidSyntax e) \<longleftrightarrow>
     e = accessControl a \<and> accessControl a \<notin> spaced_expressions"
  by (auto simp: validateAccessControls_def Let_def MatchString_iff_spaced split: option.splits)

lemma expressions_spaced: "s \<in> expressions \<Longrightarrow> s \<in> spaced_expressions"
proof -
  assume "s \<in> expressions"
  then obtain t rest where "s = join_terms t rest" "well_formed t rest"
    unfolding expressions_def by blast
  then have "s = spaced_join t (tight rest)" "spaced_well_formed t (tight rest)"
    by (simp_all add: tight_join tight_well_formed)
  then show ?thesis unfolding spaced_expressions_def by blast
qed

lemma term_facts:
  "list_all (\<lambda>t. 3 \<le> length t \<and> \<not> suffix ''And'' t \<and> \<not> suffix ''Or'' t \<and>
      CHR '' '' \<notin> set t) accessControlOptions"
  by (simp add: accessControlOptions_def suffix_to_prefix)

lemma term_ends:
  assumes "t \<in> set accessControlOptions"
  shows "3 \<le> length t" "\<not> suffix ''And'' t" "\<not> suffix ''Or'' t" "CHR '' '' \<notin> set t"
  using term_facts assms unfolding list_all_iff by blast+

lemma suffix_of_long_end:
  assumes "suffix w (x @ u)" "length w \<le> length u"
  shows "suffix w u"
proof -
  from assms(1) obtain y where y: "x @ u = y @ w" by (auto simp: suffix_def)
  with assms(2) obtain k where "u = k @ w"
    by (auto simp: append_eq_append_conv2)
  then show ?thesis by (simp add: suffix_def)
qed

lemma spaced_last_term:
  assumes "spaced_well_formed t links"
  shows "\<exists>x u. spaced_join t links = x @ u \<and> u \<in> set accessControlOptions"
proof (cases links rule: rev_cases)
  case Nil
  with assms have "spaced_join t links = [] @ t" "t \<in> set accessControlOptions"
    by (simp_all add: spaced_join_def spaced_well_formed_def)
  then show ?thesis by blast
next
  case (snoc ls l)
  obtain w1 c w2 u where l: "l = (w1, c, w2, u)" by (cases l)
  with assms snoc have "u \<in> set accessControlOptions"
    by (simp add: spaced_well_formed_def link_ok_tuple)
  moreover have "spaced_join t links = (t @ concat (map link_text ls) @ w1 @ c @ w2) @ u"
    by (simp add: spaced_join_def snoc l link_text_tuple)
  ultimately show ?thesis by blast
qed

lemma spaced_shape:
  assumes "s \<in> spaced_expressions"
  shows "s \<noteq> []" "\<not> prefix ''And'' s" "\<not> prefix ''Or'' s"
    "\<not> suffix ''And'' s" "\<not> suffix ''Or'' s"
proof -
  from assms obtain t links where s: "s = spaced_join t links" and wf: "spaced_well_formed t links"
    unfolding spaced_expressions_def by blast
  then have t: "t \<in> set accessControlOptions" by (simp add: spaced_well_formed_def)
  from term_shape[OF t] s show "s \<noteq> []" by (simp add: spaced_join_def)
  from term_ends(1)[OF t] have "0 < length t" by arith
  from term_no_conjunction[OF t this, of "concat (map link_text links)"] s
  show "\<not> prefix ''And'' s" "\<not> prefix ''Or'' s" by (simp_all add: spaced_join_def)
  from spaced_last_term[OF wf] s obtain x u where
    u: "s = x @ u" "u \<in> set accessControlOptions" by auto
  show "\<not> suffix ''And'' s"
  proof
    assume "suffix ''And'' s"
    with u(1) have "suffix ''And'' (x @ u)" by simp
    moreover have "length ''And'' \<le> length u" using term_ends(1)[OF u(2)] by simp
    ultimately have "suffix ''And'' u" by (rule suffix_of_long_end)
    with term_ends(2)[OF u(2)] show False by simp
  qed
  show "\<not> suffix ''Or'' s"
  proof
    assume "suffix ''Or'' s"
    with u(1) have "suffix ''Or'' (x @ u)" by simp
    moreover have "length ''Or'' \<le> length u" using term_ends(1)[OF u(2)] by simp
    ultimately have "suffix ''Or'' u" by (rule suffix_of_long_end)
    with term_ends(3)[OF u(2)] show False by simp
  qed
qed

lemma expressions_no_blank: "s \<in> expressions \<Longrightarrow> CHR '' '' \<notin> set s"
proof -
  assume "s \<in> expressions"
  then obtain t rest where s: "s = join_terms t rest" and wf: "well_formed t rest"
    unfolding expressions_def by blast
  from wf have "CHR '' '' \<notin> set (join_terms t rest)"
  proof (induction rest arbitrary: t)
    case Nil
    then show ?case using term_ends(4)[of t] by (simp add: join_terms_def well_formed_def)
  next
    case (Cons l rest)
    obtain c u where l: "l = (c, u)" by (cases l)
    with Cons.prems have t: "t \<in> set accessControlOptions" and c: "c \<in> {''And'', ''Or''}"
      and w: "well_formed u rest" by (simp_all add: well_formed_def)
    from Cons.IH[OF w] term_ends(4)[OF t] c show ?case
      by (auto simp: join_terms_def l)
  qed
  with s show ?thesis by simp
qed

text \<open>
  Claim C4, as the code has it. The validator fails with \<open>InvalidSyntax\<close>, carrying the
  setting, exactly when the setting does not fully match, case-sensitively, the grammar
  \<open>TERM (\s* (And|Or) \s* TERM)*\<close> over the vocabulary, in which optional white space may
  surround each conjunction. Every setting of the grammar \<open>TERM ((And|Or) TERM)*\<close> passes
  this check; the empty setting and every setting that begins or ends with \<open>And\<close> or \<open>Or\<close>
  fail it.
\<close>

theorem validate_syntax_spaced_grammar:
  "(validateAccessControls a = Inl (InvalidSyntax (accessControl a)) \<longleftrightarrow>
      accessControl a \<notin> spaced_expressions) \<and>
   (\<forall>e. validateAccessControls a = Inl (InvalidSyntax e) \<longrightarrow> e = accessControl a) \<and>
   (accessControl a \<in> expressions \<longrightarrow>
      validateAccessControls a \<noteq> Inl (InvalidSyntax (accessControl a))) \<and>
   (accessControl a = [] \<or>
    prefix ''And'' (accessControl a) \<or> prefix ''Or'' (accessControl a) \<or>
    suffix ''And'' (accessControl a) \<or> suffix ''Or'' (accessControl a) \<longrightarrow>
      validateAccessControls a = Inl (InvalidSyntax (accessControl a)))"
proof (intro conjI allI impI)
  show "validateAccessControls a = Inl (InvalidSyntax (accessControl a)) \<longleftrightarrow>
      accessControl a \<notin> spaced_expressions"
    by (simp add: validate_InvalidSyntax_iff)
  show "e = accessControl a" if "validateAccessControls a = Inl (InvalidSyntax e)" for e
    using that by (simp add: validate_InvalidSyntax_iff)
  show "validateAccessControls a \<noteq> Inl (InvalidSyntax (accessControl a))"
    if "accessControl a \<in> expressions"
    using expressions_spaced[OF that] by (simp add: validate_InvalidSyntax_iff)
  show "validateAccessControls a = Inl (InvalidSyntax (accessControl a))"
    if "accessControl a = [] \<or>
        prefix ''And'' (accessControl a) \<or> prefix ''Or'' (accessControl a) \<or>
        suffix ''And'' (accessControl a) \<or> suffix ''Or'' (accessControl a)"
  proof -
    have "accessControl a \<notin> spaced_expressions"
    proof
      assume "accessControl a \<in> spaced_expressions"
      from spaced_shape[OF this] that show False by metis
    qed
    then show ?thesis by (simp add: validate_InvalidSyntax_iff)
  qed
qed

theorem validate_syntax_spaced_grammar_witness:
  "''UserPresenceOrWatch'' \<in> expressions \<and>
   validateAccessControls (vault_with ''UserPresenceOrWatch'') \<noteq>
     Inl (InvalidSyntax ''UserPresenceOrWatch'') \<and>
   suffix ''And'' ''UserPresenceAnd'' \<and>
   validateAccessControls (vault_with ''UserPresenceAnd'') = Inl (InvalidSyntax ''UserPresenceAnd'') \<and>
   validateAccessControls (vault_with ''userpresence'') = Inl (InvalidSyntax ''userpresence'') \<and>
   ''userpresence'' \<notin> spaced_expressions"
proof -
  have "well_formed ''UserPresence'' [(''Or'', ''Watch'')]"
    by (simp add: well_formed_def accessControlOptions_def)
  moreover have "''UserPresenceOrWatch'' = join_terms ''UserPresence'' [(''Or'', ''Watch'')]"
    by (simp add: join_terms_def)
  ultimately have m: "''UserPresenceOrWatch'' \<in> expressions"
    unfolding expressions_def by blast
  have s: "suffix ''And'' ''UserPresenceAnd''" by (simp add: suffix_to_prefix)
  have acc: "\<And>x. accessControl (vault_with x) = x" by (simp add: vault_with_def)
  from validate_syntax_spaced_grammar[of "vault_with ''UserPresenceOrWatch''"] m
  have a: "validateAccessControls (vault_with ''UserPresenceOrWatch'') \<noteq>
     Inl (InvalidSyntax ''UserPresenceOrWatch'')"
    unfolding acc by blast
  from validate_syntax_spaced_grammar[of "vault_with ''UserPresenceAnd''"] s
  have b: "validateAccessControls (vault_with ''UserPresenceAnd'') =
     Inl (InvalidSyntax ''UserPresenceAnd'')"
    unfolding acc by blast
  have l: "validateAccessControls (vault_with ''userpresence'') = Inl (InvalidSyntax ''userpresence'')"
    by code_simp
  with validate_syntax_spaced_grammar[of "vault_with ''userpresence''"]
  have c: "''userpresence'' \<notin> spaced_expressions"
    unfolding acc by blast
  from m a s b l c show ?thesis by (intro conjI)
qed

text \<open>
  Claim C4 as stated has the grammar without white space. The setting
  \<open>UserPresence And Watch\<close> does not match that grammar, and the validator accepts it.
\<close>

theorem validate_syntax_counterexample:
  "''UserPresence And Watch'' \<notin> expressions \<and>
   validateAccessControls (vault_with ''UserPresence And Watch'') =
     Inr [''UserPresence'', ''Watch'']"
proof -
  have "validateAccessControls (vault_with ''UserPresence And Watch'') =
     Inr [''UserPresence'', ''Watch'']"
    by code_simp
  moreover have "''UserPresence And Watch'' \<notin> expressions"
    using expressions_no_blank[of "''UserPresence And Watch''"] by auto
  ultimately show ?thesis by simp
qed

end
